theory Spec2Isabelle
  imports Main
begin

chapter \<open>The scan command: a shallow embedding of \<open>src/_scan.js\<close>\<close>

text \<open>
  The development follows the current revision of the script (the one that lives in the
  \<open>src\<close> folder of the repository, with the three-component destination and the
  \<open>kdialog\<close> prompt).  JavaScript strings are modelled as \<^typ>\<open>string\<close>; a character
  stands for one code unit in the range U+0000 .. U+00FF.  The file system, the file the
  script is loaded from, the variable \<open>HOME\<close>, the current directory, the current date and
  the results of the external commands are explicit parameters; \<open>scriptDir\<close> and \<open>homeDir\<close>
  are computed from them as the script computes them.  Messages written to the console are
  left out.

  The older revision at the top level of the repository has the same default-name
  generator, the same join of the two promises and the same sanity check; its validator,
  its two-component destination and its test before the rename differ and are not part of
  this development.
\<close>

section \<open>The program\<close>

subsection \<open>Strings\<close>

text \<open>
  The characters matched by \<open>\s\<close> and removed by \<open>String.prototype.trim\<close>, as far as they
  lie below U+0100: tab, line feed, vertical tab, form feed, carriage return, space and the
  no-break space.
\<close>

definition isWhitespace :: "char \<Rightarrow> bool" where
  "isWhitespace c \<longleftrightarrow>
     c \<in> set [CHR 0x09, CHR 0x0A, CHR 0x0B, CHR 0x0C, CHR 0x0D, CHR 0x20, CHR 0xA0]"

text \<open>
  \<open>toLowerCase\<close>, and \<open>toLocaleLowerCase\<close> in a locale without special casing: the letters
  \<open>A\<close> to \<open>Z\<close> and the capital letters of Latin-1 move up by 32.
\<close>

definition lowerChar :: "char \<Rightarrow> char" where
  "lowerChar c =
     (let n = (of_char c :: nat)
      in if (65 \<le> n \<and> n \<le> 90) \<or> (192 \<le> n \<and> n \<le> 222 \<and> n \<noteq> 215)
         then char_of (n + 32) else c)"

definition toLowerCase :: "string \<Rightarrow> string" where
  "toLowerCase s = map lowerChar s"

definition trim :: "string \<Rightarrow> string" where
  "trim s = rev (dropWhile isWhitespace (rev (dropWhile isWhitespace s)))"

definition endsWith :: "string \<Rightarrow> string \<Rightarrow> bool" where
  "endsWith s suf \<longleftrightarrow> length suf \<le> length s \<and> drop (length s - length suf) s = suf"

text \<open>\<open>s.replace('.', '')\<close>: only the first occurrence is removed.\<close>

fun removeFirstDot :: "string \<Rightarrow> string" where
  "removeFirstDot [] = []"
| "removeFirstDot (c # cs) = (if c = CHR ''.'' then cs else c # removeFirstDot cs)"

text \<open>\<open>Array.prototype.join\<close> with a separator.\<close>

fun joinWith :: "string \<Rightarrow> string list \<Rightarrow> string" where
  "joinWith sep [] = []"
| "joinWith sep [x] = x"
| "joinWith sep (x # y # ys) = x @ sep @ joinWith sep (y # ys)"

text \<open>\<open>String(index).padStart(2, '0')\<close>.\<close>

definition digitChar :: "nat \<Rightarrow> char" where
  "digitChar d = ''0123456789'' ! d"

function decimal :: "nat \<Rightarrow> string" where
  "decimal n = (if n < 10 then [digitChar n] else decimal (n div 10) @ [digitChar (n mod 10)])"
  by pat_completeness auto
termination
  by (relation "measure (\<lambda>n. n)") auto

definition padStart2 :: "string \<Rightarrow> string" where
  "padStart2 s = replicate (2 - length s) CHR ''0'' @ s"

subsection \<open>Regular expressions\<close>

text \<open>
  The regular expression literals of the script are kept as data.  A character class is a
  list of items, possibly negated; \<open>WS\<close> is the escape \<open>\s\<close>.  \<open>regex_test\<close> is the anchored
  test \<open>/^r$/.test(s)\<close>, computed with derivatives.
\<close>

datatype citem = Ch char | WS

datatype rexp =
    Empty
  | Eps
  | Cls bool "citem list"
  | Alt rexp rexp
  | Cat rexp rexp
  | Star rexp

fun item_has :: "citem \<Rightarrow> char \<Rightarrow> bool" where
  "item_has (Ch d) c = (c = d)"
| "item_has WS c = isWhitespace c"

definition cls_has :: "bool \<Rightarrow> citem list \<Rightarrow> char \<Rightarrow> bool" where
  "cls_has neg items c = (list_ex (\<lambda>i. item_has i c) items \<noteq> neg)"

fun nullable :: "rexp \<Rightarrow> bool" where
  "nullable Empty = False"
| "nullable Eps = True"
| "nullable (Cls _ _) = False"
| "nullable (Alt r s) = (nullable r \<or> nullable s)"
| "nullable (Cat r s) = (nullable r \<and> nullable s)"
| "nullable (Star _) = True"

fun deriv :: "char \<Rightarrow> rexp \<Rightarrow> rexp" where
  "deriv c Empty = Empty"
| "deriv c Eps = Empty"
| "deriv c (Cls neg items) = (if cls_has neg items c then Eps else Empty)"
| "deriv c (Alt r s) = Alt (deriv c r) (deriv c s)"
| "deriv c (Cat r s) =
     (if nullable r then Alt (Cat (deriv c r) s) (deriv c s) else Cat (deriv c r) s)"
| "deriv c (Star r) = Cat (deriv c r) (Star r)"

fun regex_test :: "rexp \<Rightarrow> string \<Rightarrow> bool" where
  "regex_test r [] = nullable r"
| "regex_test r (c # cs) = regex_test (deriv c r) cs"

text \<open>The postfix operators \<open>+\<close> and \<open>?\<close>.\<close>

definition Plus :: "rexp \<Rightarrow> rexp" where
  "Plus r = Cat r (Star r)"

definition Opt :: "rexp \<Rightarrow> rexp" where
  "Opt r = Alt r Eps"

text \<open>The items of the class \<open>[^<>:"'`/\\|?*\s]\<close>.\<close>

definition nameClass :: "citem list" where
  "nameClass =
     [Ch CHR ''<'', Ch CHR ''>'', Ch CHR '':'', Ch CHR 0x22, Ch CHR 0x27, Ch CHR 0x60,
      Ch CHR ''/'', Ch CHR 0x5C, Ch CHR ''|'', Ch CHR ''?'', Ch CHR ''*'', WS]"

text \<open>\<open>const validFilename = /^[^<>:"'`/\\|?*\s]+([ .][^<>:"'`/\\|?*\s.]+)*$/\<close>\<close>

definition validFilename_re :: rexp where
  "validFilename_re =
     Cat (Plus (Cls True nameClass))
         (Star (Cat (Cls False [Ch CHR '' '', Ch CHR ''.''])
                    (Plus (Cls True (nameClass @ [Ch CHR ''.''])))))"

definition validFilename :: "string \<Rightarrow> bool" where
  "validFilename s = regex_test validFilename_re s"

text \<open>\<open>/^\d{1,3}$/\<close>\<close>

definition digitClass :: "citem list" where
  "digitClass = map Ch ''0123456789''"

definition pageCount_re :: rexp where
  "pageCount_re =
     Cat (Cls False digitClass) (Opt (Cat (Cls False digitClass) (Opt (Cls False digitClass))))"

text \<open>\<open>parseInt(arg, 10)\<close> on a string of decimal digits.\<close>

definition parseInt :: "string \<Rightarrow> nat" where
  "parseInt s = foldl (\<lambda>n c. 10 * n + (of_char c - 48)) 0 s"

subsection \<open>The \<open>path\<close> module (POSIX flavour)\<close>

text \<open>
  \<open>path.normalize\<close>, \<open>path.join\<close>, \<open>path.dirname\<close>, \<open>path.basename\<close> and \<open>path.extname\<close>
  after the scanning loops of Node's \<open>lib/path.js\<close>: trailing slashes are skipped, the last
  segment is the basename, and the segments \<open>.\<close> and \<open>..\<close> are resolved by \<open>normalize\<close> only.
\<close>

fun splitSlash :: "string \<Rightarrow> string list" where
  "splitSlash [] = [[]]"
| "splitSlash (c # cs) =
     (if c = CHR ''/'' then [] # splitSlash cs
      else (case splitSlash cs of [] \<Rightarrow> [[c]] | s # ss \<Rightarrow> (c # s) # ss))"

text \<open>
  One step of \<open>normalizeString\<close>: the segments collected so far are kept as a stack, the
  last one first.
\<close>

definition normalizeStep :: "bool \<Rightarrow> string list \<Rightarrow> string \<Rightarrow> string list" where
  "normalizeStep allowAboveRoot res seg =
     (if seg = [] \<or> seg = ''.'' then res
      else if seg = ''..'' then
        (case res of
           [] \<Rightarrow> if allowAboveRoot then [''..''] else []
         | lastSeg # rest \<Rightarrow>
             if lastSeg = ''..'' then (if allowAboveRoot then ''..'' # res else res) else rest)
      else seg # res)"

definition normalizeString :: "string \<Rightarrow> bool \<Rightarrow> string" where
  "normalizeString p allowAboveRoot =
     joinWith ''/'' (rev (foldl (normalizeStep allowAboveRoot) [] (splitSlash p)))"

definition path_normalize :: "string \<Rightarrow> string" where
  "path_normalize p =
     (if p = [] then ''.''
      else
        let isAbsolute = (hd p = CHR ''/'');
            trailingSeparator = (last p = CHR ''/'');
            q = normalizeString p (\<not> isAbsolute)
        in if q = [] then (if isAbsolute then ''/'' else if trailingSeparator then ''./'' else ''.'')
           else (if isAbsolute then ''/'' else '''') @ q @ (if trailingSeparator then ''/'' else ''''))"

definition path_join :: "string list \<Rightarrow> string" where
  "path_join parts =
     (let joined = joinWith ''/'' (filter (\<lambda>a. a \<noteq> []) parts)
      in if joined = [] then ''.'' else path_normalize joined)"

definition path_dirname :: "string \<Rightarrow> string" where
  "path_dirname p =
     (if p = [] then ''.''
      else
        let hasRoot = (hd p = CHR ''/'');
            r = dropWhile (\<lambda>c. c \<noteq> CHR ''/'') (dropWhile (\<lambda>c. c = CHR ''/'') (rev (tl p)));
            endIdx = length r
        in if r = [] then (if hasRoot then ''/'' else ''.'')
           else if hasRoot \<and> endIdx = 1 then ''//''
           else take endIdx p)"

text \<open>\<open>path.basename(p)\<close> without a suffix.\<close>

definition path_basename :: "string \<Rightarrow> string" where
  "path_basename p = rev (takeWhile (\<lambda>c. c \<noteq> CHR ''/'') (dropWhile (\<lambda>c. c = CHR ''/'') (rev p)))"

text \<open>\<open>path.basename(p, suffix)\<close>.\<close>

definition path_basename_ext :: "string \<Rightarrow> string \<Rightarrow> string" where
  "path_basename_ext p suffix =
     (if suffix = [] \<or> length p < length suffix then path_basename p
      else if suffix = p then []
      else
        let b = path_basename p;
            trailing = takeWhile (\<lambda>c. c = CHR ''/'') (rev p)
        in if length b < length suffix \<and> endsWith suffix b then b @ trailing
           else if length suffix < length b \<and> endsWith b suffix
                then take (length b - length suffix) b
           else b)"

definition lastDot :: "string \<Rightarrow> nat option" where
  "lastDot b =
     (let r = dropWhile (\<lambda>c. c \<noteq> CHR ''.'') (rev b) in if r = [] then None else Some (length r - 1))"

definition path_extname :: "string \<Rightarrow> string" where
  "path_extname p =
     (let b = path_basename p
      in case lastDot b of
           None \<Rightarrow> []
         | Some startDot \<Rightarrow> if startDot = 0 \<or> b = ''..'' then [] else drop startDot b)"

subsection \<open>Environment, file system, ways to stop\<close>

text \<open>
  \<open>moduleFile\<close> is the absolute path of the file the script is loaded from, \<open>envHOME\<close> the
  value of \<open>process.env.HOME\<close>, \<open>currentDir\<close> the value of \<open>process.cwd()\<close> and \<open>isoDate\<close> the
  date part of \<open>new Date().toISOString()\<close>.
\<close>

record env =
  moduleFile :: string
  envHOME :: "string option"
  currentDir :: string
  isoDate :: string

text \<open>
  \<open>new URL(import.meta.url).pathname\<close>: the path of the module as a \<open>file:\<close> URL writes it.
  Control characters, the space, the characters \<open>" # % < > ? \ ` { }\<close> and everything from
  U+007F on are percent-encoded, characters from U+0080 on through their two bytes in UTF-8.
\<close>

definition needsEscape :: "char \<Rightarrow> bool" where
  "needsEscape c \<longleftrightarrow>
     (of_char c :: nat) < 33 \<or> 127 \<le> (of_char c :: nat)
     \<or> c \<in> set [CHR 0x22, CHR ''#'', CHR ''%'', CHR ''<'', CHR ''>'', CHR ''?'', CHR 0x5C,
                 CHR 0x60, CHR ''{'', CHR ''}'']"

definition percentByte :: "nat \<Rightarrow> string" where
  "percentByte b = [CHR ''%'', ''0123456789ABCDEF'' ! (b div 16), ''0123456789ABCDEF'' ! (b mod 16)]"

definition escapeChar :: "char \<Rightarrow> string" where
  "escapeChar c =
     (let n = (of_char c :: nat)
      in if \<not> needsEscape c then [c]
         else if n < 128 then percentByte n
         else percentByte (192 + n div 64) @ percentByte (128 + n mod 64))"

definition urlPathname :: "string \<Rightarrow> string" where
  "urlPathname p = concat (map escapeChar p)"

text \<open>\<open>const scriptDir = path.dirname(new URL(import.meta.url).pathname)\<close>\<close>

definition scriptDir :: "env \<Rightarrow> string" where
  "scriptDir e = path_dirname (urlPathname (moduleFile e))"

text \<open>\<open>const homeDir = process.env.HOME || '~'\<close>\<close>

definition homeDir :: "env \<Rightarrow> string" where
  "homeDir e = (case envHOME e of None \<Rightarrow> ''~'' | Some h \<Rightarrow> if h = [] then ''~'' else h)"

text \<open>
  What \<open>fs.lstatSync\<close> and \<open>fs.statSync\<close> report about a path; the file system maps the paths
  that exist to such an entry.
\<close>

datatype node = Node (isDirectory: bool) (size_bytes: nat)

type_synonym fs = "string \<Rightarrow> node option"

definition existsSync :: "fs \<Rightarrow> string \<Rightarrow> bool" where
  "existsSync f p \<longleftrightarrow> f p \<noteq> None"

text \<open>
  \<open>Exit n\<close> is \<open>process.exit(n)\<close>, where a call without an argument leaves with the
  default code 0; \<open>Throw msg\<close> is an exception, which ends the process with code 1 when
  nothing catches it.
\<close>

datatype abort = Exit nat | Throw string

fun exitCode :: "abort \<Rightarrow> nat" where
  "exitCode (Exit n) = n"
| "exitCode (Throw _) = 1"

text \<open>
  \<open>fs.renameSync\<close>.  It throws when there is nothing at the old path, when the directory of
  the new path is missing or is no directory, and when a file would replace a directory or a
  directory a file; otherwise it moves the entry to the new path, replacing what was there.
  Failures that the contents of the file system do not show (permissions, another device)
  and the entries below a moved directory are outside the model.
\<close>

definition renameSync :: "fs \<Rightarrow> string \<Rightarrow> string \<Rightarrow> abort + fs" where
  "renameSync f old new =
     (case f old of
        None \<Rightarrow> Inl (Throw ''ENOENT'')
      | Some n \<Rightarrow>
          (case f (path_dirname new) of
             None \<Rightarrow> Inl (Throw ''ENOENT'')
           | Some d \<Rightarrow>
               if \<not> isDirectory d then Inl (Throw ''ENOTDIR'')
               else
                 (case f new of
                    None \<Rightarrow> Inr ((f(old := None))(new \<mapsto> n))
                  | Some m \<Rightarrow>
                      if isDirectory m \<and> \<not> isDirectory n then Inl (Throw ''EISDIR'')
                      else if isDirectory n \<and> \<not> isDirectory m then Inl (Throw ''ENOTDIR'')
                      else Inr ((f(old := None))(new \<mapsto> n)))))"

subsection \<open>Destination\<close>

definition knownExtensions :: "string list" where
  "knownExtensions = [''pdf'', ''jpg'', ''png'']"

definition avoidScriptAndHomeDir :: "env \<Rightarrow> string \<Rightarrow> string" where
  "avoidScriptAndHomeDir e dir =
     (if dir = scriptDir e \<or> dir = homeDir e then path_join [homeDir e, ''Pictures'', ''scan'']
      else dir)"

definition getDestination :: "env \<Rightarrow> fs \<Rightarrow> string list \<Rightarrow> abort + string \<times> string \<times> string" where
  "getDestination e f args =
     (let rawPath = trim (joinWith '' '' args)
      in if rawPath = [] then Inr (avoidScriptAndHomeDir e (currentDir e), [], [])
         else if existsSync f rawPath \<and> isDirectory (the (f rawPath)) then Inr (rawPath, [], [])
         else
           let possibleDir = path_dirname rawPath;
               possibleFilename = path_basename rawPath;
               possibleExt0 = toLowerCase (removeFirstDot (path_extname rawPath));
               possibleExt = (if toLowerCase possibleExt0 \<in> set knownExtensions
                              then possibleExt0 else []);
               possibleBasename =
                 path_basename_ext rawPath (if possibleExt = [] then [] else ''.'' @ possibleExt)
           in if \<not> validFilename possibleFilename then Inl (Exit 1)
              else if \<not> existsSync f possibleDir then Inl (Exit 1)
              else Inr (avoidScriptAndHomeDir e possibleDir, possibleBasename, possibleExt))"

subsection \<open>Default file name\<close>

definition candidateBase :: "string \<Rightarrow> nat \<Rightarrow> string" where
  "candidateBase baseFilename index = baseFilename @ '' '' @ padStart2 (decimal index)"

definition candidatePath :: "string \<Rightarrow> string \<Rightarrow> string \<Rightarrow> nat \<Rightarrow> string" where
  "candidatePath targetDir ext baseFilename index =
     path_join [targetDir, candidateBase baseFilename index @ ''.'' @ ext]"

text \<open>
  The \<open>while\<close> loop of \<open>getDefaultFilename\<close>.  Next to the result it returns the paths it has
  handed to \<open>fs.existsSync\<close>, in order.
\<close>

function defaultFilenameLoop ::
  "fs \<Rightarrow> string \<Rightarrow> string \<Rightarrow> string \<Rightarrow> nat \<Rightarrow> string list \<Rightarrow> string list \<times> (abort + string)"
where
  "defaultFilenameLoop f targetDir ext baseFilename index probed =
     (if index < 100 then
        (if \<not> existsSync f (candidatePath targetDir ext baseFilename index)
         then (probed @ [candidatePath targetDir ext baseFilename index],
               Inr (candidateBase baseFilename index))
         else defaultFilenameLoop f targetDir ext baseFilename (index + 1)
                (probed @ [candidatePath targetDir ext baseFilename index]))
      else (probed, Inl (Throw ''No available filename found'')))"
  by pat_completeness auto
termination
  by (relation "measure (\<lambda>(f, targetDir, ext, baseFilename, index, probed). 100 - index)") auto

definition getDefaultFilenameProbes ::
  "env \<Rightarrow> fs \<Rightarrow> string \<Rightarrow> string \<Rightarrow> string list \<times> (abort + string)" where
  "getDefaultFilenameProbes e f targetDir ext =
     defaultFilenameLoop f targetDir ext (isoDate e @ '' scan'') 1 []"

definition getDefaultFilename :: "env \<Rightarrow> fs \<Rightarrow> string \<Rightarrow> string \<Rightarrow> abort + string" where
  "getDefaultFilename e f targetDir ext = snd (getDefaultFilenameProbes e f targetDir ext)"

subsection \<open>\<open>scanToFile\<close>: from the arguments to the target path\<close>

record intent =
  openFlag :: bool
  FAKEMODE :: bool
  multiPage :: bool
  numOfPages :: nat
  outputFormat :: string

definition initialIntent :: intent where
  "initialIntent =
     \<lparr>openFlag = True, FAKEMODE = False, multiPage = False, numOfPages = 1, outputFormat = ''pdf''\<rparr>"

definition magicWords :: "string list" where
  "magicWords = [''close'', ''fake'', ''all'', ''jpg'', ''png'']"

text \<open>The loop that consumes the magic words at the front of the arguments.\<close>

fun processMagicWords :: "intent \<Rightarrow> string list \<Rightarrow> intent \<times> string list" where
  "processMagicWords i [] = (i, [])"
| "processMagicWords i (a # rest) =
     (let arg = toLowerCase a
      in if arg \<in> set magicWords then
           processMagicWords
             (if arg = ''close'' then i\<lparr>openFlag := False\<rparr>
              else if arg = ''fake'' then i\<lparr>FAKEMODE := True\<rparr>
              else if arg = ''all'' then i\<lparr>numOfPages := 0, multiPage := True\<rparr>
              else if arg = ''jpg'' \<or> arg = ''png'' then i\<lparr>outputFormat := arg\<rparr>
              else i)
             rest
         else if regex_test pageCount_re arg then
           processMagicWords (i\<lparr>numOfPages := parseInt arg, multiPage := True\<rparr>) rest
         else (i, a # rest))"

record plan =
  p_intent :: intent
  p_dir :: string
  p_ext :: string
  p_filePath :: string
  p_promptingNeeded :: bool

text \<open>
  The part of \<open>scanToFile\<close> between the call of \<open>getDestination\<close> and the start of the two
  operations: extension against output format, default name, target path.
\<close>

definition resolveTarget :: "env \<Rightarrow> fs \<Rightarrow> intent \<Rightarrow> string \<times> string \<times> string \<Rightarrow> abort + plan" where
  "resolveTarget e f i d =
     (case d of (dir, basename0, ext0) \<Rightarrow>
        let basename1 = trim basename0
        in if ext0 \<noteq> [] \<and> outputFormat i \<noteq> ''pdf'' \<and> ext0 \<noteq> outputFormat i then Inl (Exit 0)
           else
             let ext1 = (if ext0 = [] then outputFormat i else ext0)
             in case (if basename1 = []
                      then (case getDefaultFilename e f dir (outputFormat i) of
                              Inl a \<Rightarrow> Inl a
                            | Inr b \<Rightarrow> Inr (b, outputFormat i, True))
                      else Inr (basename1, ext1, False)) of
                  Inl a \<Rightarrow> Inl a
                | Inr (basename2, ext2, prompting) \<Rightarrow>
                    let suffix = ''.'' @ outputFormat i;
                        basename3 = (if endsWith (toLowerCase basename2) suffix
                                     then take (length basename2 - length suffix) basename2
                                     else basename2);
                        fileName = basename3 @ ''.'' @ ext2
                    in Inr \<lparr>p_intent = i, p_dir = dir, p_ext = ext2,
                            p_filePath = path_join [dir, fileName],
                            p_promptingNeeded = prompting\<rparr>)"

definition scanToFile_prepare :: "env \<Rightarrow> fs \<Rightarrow> string list \<Rightarrow> abort + plan" where
  "scanToFile_prepare e f argv =
     (if ''--help'' \<in> set argv \<or> ''-h'' \<in> set argv then Inl (Exit 0)
      else
        case processMagicWords initialIntent argv of (i, args) \<Rightarrow>
          (case getDestination e f args of
             Inl a \<Rightarrow> Inl a
           | Inr d \<Rightarrow> resolveTarget e f i d))"

subsection \<open>\<open>scanToFile\<close>: the two operations and their continuation\<close>

text \<open>
  What an observer of the process sees: the two operations settle, and the continuation
  calls \<open>fs.renameSync\<close>, \<open>fs.existsSync\<close>, \<open>fs.statSync\<close> and starts the viewer.
\<close>

datatype event =
    CaptureCompleted
  | CaptureFailed
  | NamingCompleted string
  | NamingFailed
  | RenameSync string string
  | ExistsSync string
  | StatSync string
  | ViewerLaunch string

text \<open>The callback handed to \<open>then\<close>, in its three parts.\<close>

definition renameStep :: "fs \<Rightarrow> string \<Rightarrow> string \<Rightarrow> event list \<times> (abort + fs)" where
  "renameStep f filePath finalFilePath =
     (if filePath \<noteq> finalFilePath
      then ([RenameSync filePath finalFilePath], renameSync f filePath finalFilePath)
      else ([], Inr f))"

definition sanityCheck :: "fs \<Rightarrow> string \<Rightarrow> event list \<times> abort option" where
  "sanityCheck f finalFilePath =
     (if \<not> existsSync f finalFilePath
      then ([ExistsSync finalFilePath],
            Some (Throw ([CHR 0x27] @ finalFilePath @ [CHR 0x27] @ '' does not exist'')))
      else if size_bytes (the (f finalFilePath)) < 10 * 1024
      then ([ExistsSync finalFilePath, StatSync finalFilePath],
            Some (Throw ([CHR 0x27] @ finalFilePath @ [CHR 0x27] @ '' is smaller than 10KB.'')))
      else ([ExistsSync finalFilePath, StatSync finalFilePath], None))"

definition thenCallback :: "bool \<Rightarrow> string \<Rightarrow> fs \<Rightarrow> string \<Rightarrow> event list \<times> fs \<times> abort option" where
  "thenCallback openAfter filePath f finalFilePath =
     (case renameStep f filePath finalFilePath of
        (evs1, Inl a) \<Rightarrow> (evs1, f, Some a)
      | (evs1, Inr f1) \<Rightarrow>
          (case sanityCheck f1 finalFilePath of
             (evs2, Some a) \<Rightarrow> (evs1 @ evs2, f1, Some a)
           | (evs2, None) \<Rightarrow>
               (evs1 @ evs2 @ (if openAfter then [ViewerLaunch finalFilePath] else []), f1, None)))"

text \<open>
  The exit code after the callback: an exception thrown in it reaches the \<open>catch\<close> handler,
  which calls \<open>process.exit(1)\<close>; otherwise the process ends with code 0.
\<close>

definition settledExit :: "abort option \<Rightarrow> nat" where
  "settledExit r = (case r of None \<Rightarrow> 0 | Some _ \<Rightarrow> 1)"

datatype 'a promise = Pending | Fulfilled 'a | Rejected

record run_state =
  r_fs :: fs
  scanPromise :: "unit promise"
  promptPromise :: "string promise"
  r_events :: "event list"
  r_exited :: "nat option"

text \<open>
  The state right after both operations have been started.  Without prompting the naming
  operation is \<open>Promise.resolve(filePath)\<close>, fulfilled from the start.
\<close>

definition startRun :: "plan \<Rightarrow> fs \<Rightarrow> run_state" where
  "startRun pl f =
     \<lparr>r_fs = f,
      scanPromise = Pending,
      promptPromise = (if p_promptingNeeded pl then Pending else Fulfilled (p_filePath pl)),
      r_events = (if p_promptingNeeded pl then [] else [NamingCompleted (p_filePath pl)]),
      r_exited = None\<rparr>"

text \<open>
  One step of the event loop.  The external commands settle in any order and with any
  effect on the file system; \<open>Promise.all\<close> runs the \<open>then\<close> callback once both promises are
  fulfilled and the \<open>catch\<close> handler as soon as one of them is rejected; the prompt's own
  callback leaves with \<open>process.exit(1)\<close> on a name that fails \<open>validFilePath\<close>.
\<close>

inductive step :: "plan \<Rightarrow> run_state \<Rightarrow> run_state \<Rightarrow> bool" for pl :: plan where
  capture_ok:
    "scanPromise s = Pending \<Longrightarrow> r_exited s = None \<Longrightarrow>
     step pl s (s\<lparr>r_fs := f', scanPromise := Fulfilled (), r_events := r_events s @ [CaptureCompleted]\<rparr>)"
| capture_fail:
    "scanPromise s = Pending \<Longrightarrow> r_exited s = None \<Longrightarrow>
     step pl s (s\<lparr>r_fs := f', scanPromise := Rejected, r_events := r_events s @ [CaptureFailed]\<rparr>)"
| naming_ok:
    "promptPromise s = Pending \<Longrightarrow> r_exited s = None \<Longrightarrow>
     step pl s (s\<lparr>promptPromise := Fulfilled name, r_events := r_events s @ [NamingCompleted name]\<rparr>)"
| naming_fail:
    "promptPromise s = Pending \<Longrightarrow> r_exited s = None \<Longrightarrow>
     step pl s (s\<lparr>promptPromise := Rejected, r_events := r_events s @ [NamingFailed]\<rparr>)"
| naming_invalid:
    "promptPromise s = Pending \<Longrightarrow> r_exited s = None \<Longrightarrow>
     step pl s (s\<lparr>r_events := r_events s @ [NamingFailed], r_exited := Some 1\<rparr>)"
| all_then:
    "scanPromise s = Fulfilled () \<Longrightarrow> promptPromise s = Fulfilled finalFilePath \<Longrightarrow>
     r_exited s = None \<Longrightarrow>
     thenCallback (openFlag (p_intent pl)) (p_filePath pl) (r_fs s) finalFilePath = (evs, f', res) \<Longrightarrow>
     step pl s (s\<lparr>r_fs := f', r_events := r_events s @ evs, r_exited := Some (settledExit res)\<rparr>)"
| all_catch:
    "scanPromise s = Rejected \<or> promptPromise s = Rejected \<Longrightarrow> r_exited s = None \<Longrightarrow>
     step pl s (s\<lparr>r_exited := Some 1\<rparr>)"

inductive reachable :: "plan \<Rightarrow> fs \<Rightarrow> run_state \<Rightarrow> bool" for pl :: plan and f :: fs where
  reach_start: "reachable pl f (startRun pl f)"
| reach_step: "reachable pl f s \<Longrightarrow> step pl s s' \<Longrightarrow> reachable pl f s'"

text \<open>The steps of the continuation: rename, existence check, size check, viewer launch.\<close>

fun isContinuationStep :: "event \<Rightarrow> bool" where
  "isContinuationStep (RenameSync _ _) = True"
| "isContinuationStep (ExistsSync _) = True"
| "isContinuationStep (StatSync _) = True"
| "isContinuationStep (ViewerLaunch _) = True"
| "isContinuationStep _ = False"

section \<open>Notions for the properties\<close>

subsection \<open>Regular expressions and grammars, in words\<close>

text \<open>The strings a regular expression denotes.\<close>

inductive rmatch :: "rexp \<Rightarrow> string \<Rightarrow> bool" where
  m_eps: "rmatch Eps []"
| m_cls: "cls_has neg items c \<Longrightarrow> rmatch (Cls neg items) [c]"
| m_alt1: "rmatch r w \<Longrightarrow> rmatch (Alt r s) w"
| m_alt2: "rmatch s w \<Longrightarrow> rmatch (Alt r s) w"
| m_cat: "rmatch r u \<Longrightarrow> rmatch s v \<Longrightarrow> rmatch (Cat r s) (u @ v)"
| m_star0: "rmatch (Star r) []"
| m_star: "rmatch r u \<Longrightarrow> rmatch (Star r) v \<Longrightarrow> rmatch (Star r) (u @ v)"

text \<open>The eleven characters \<open>< > : " ' ` / \ | ? *\<close>.\<close>

definition forbiddenChars :: "char list" where
  "forbiddenChars =
     [CHR ''<'', CHR ''>'', CHR '':'', CHR 0x22, CHR 0x27, CHR 0x60,
      CHR ''/'', CHR 0x5C, CHR ''|'', CHR ''?'', CHR ''*'']"

text \<open>A run: one or more characters that are neither forbidden nor whitespace.\<close>

definition nameChar :: "char \<Rightarrow> bool" where
  "nameChar c \<longleftrightarrow> c \<notin> set forbiddenChars \<and> \<not> isWhitespace c"

definition nameRun :: "string \<Rightarrow> bool" where
  "nameRun r \<longleftrightarrow> r \<noteq> [] \<and> (\<forall>c\<in>set r. nameChar c)"

definition dotFreeRun :: "string \<Rightarrow> bool" where
  "dotFreeRun r \<longleftrightarrow> nameRun r \<and> CHR ''.'' \<notin> set r"

definition isSeparator :: "char \<Rightarrow> bool" where
  "isSeparator c \<longleftrightarrow> c = CHR '' '' \<or> c = CHR ''.''"

text \<open>
  The filename grammar as the specification words it: a run, then any number of groups of
  one space or dot and another run.
\<close>

definition specFilenameGrammar :: "string \<Rightarrow> bool" where
  "specFilenameGrammar s \<longleftrightarrow>
     (\<exists>r0 groups. s = r0 @ concat groups \<and> nameRun r0 \<and>
        (\<forall>g\<in>set groups. \<exists>sep run. g = sep # run \<and> isSeparator sep \<and> nameRun run))"

text \<open>The same with runs after a separator that contain no dot, as the regular expression has it.\<close>

definition codeFilenameGrammar :: "string \<Rightarrow> bool" where
  "codeFilenameGrammar s \<longleftrightarrow>
     (\<exists>r0 groups. s = r0 @ concat groups \<and> nameRun r0 \<and>
        (\<forall>g\<in>set groups. \<exists>sep run. g = sep # run \<and> isSeparator sep \<and> dotFreeRun run))"

text \<open>Two spaces in a row somewhere in the string.\<close>

fun containsDoubleSpace :: "string \<Rightarrow> bool" where
  "containsDoubleSpace (a # b # cs) = ((a = CHR '' '' \<and> b = CHR '' '') \<or> containsDoubleSpace (b # cs))"
| "containsDoubleSpace _ = False"

text \<open>What every prefix of a valid name that ends with a run has in common.\<close>

definition endsInName :: "string \<Rightarrow> bool" where
  "endsInName w \<longleftrightarrow> w \<noteq> [] \<and> nameChar (last w) \<and> \<not> containsDoubleSpace w"

subsection \<open>Auxiliary notions and sample inputs\<close>

fun isRename :: "event \<Rightarrow> bool" where
  "isRename (RenameSync _ _) = True"
| "isRename _ = False"

text \<open>The candidate name as the specification words it, with \<open>capture\<close> in the middle.\<close>

definition specCandidate :: "string \<Rightarrow> nat \<Rightarrow> string" where
  "specCandidate date index = date @ '' capture '' @ padStart2 (decimal index)"

text \<open>
  An absolute path written out from its segments, none of them empty, \<open>.\<close> or \<open>..\<close>:
  the shape of a home directory such as \<open>/home/u\<close>.
\<close>

definition cleanSegment :: "string \<Rightarrow> bool" where
  "cleanSegment s \<longleftrightarrow> s \<noteq> [] \<and> CHR ''/'' \<notin> set s \<and> s \<noteq> ''.'' \<and> s \<noteq> ''..''"

definition absolutePath :: "string list \<Rightarrow> string" where
  "absolutePath segs = concat (map (\<lambda>s. CHR ''/'' # s) segs)"

definition demoEnv :: env where
  "demoEnv = \<lparr>moduleFile = ''/opt/scan/src/_scan.js'', envHOME = Some ''/home/u'',
              currentDir = ''/home/u'', isoDate = ''2024-10-16''\<rparr>"

text \<open>The script installed in a directory with a space in its name, and run from there.\<close>

definition spacedEnv :: env where
  "spacedEnv = \<lparr>moduleFile = ''/opt/my scan/src/_scan.js'', envHOME = Some ''/home/u'',
                currentDir = ''/opt/my scan/src'', isoDate = ''2024-10-16''\<rparr>"

definition demoFs :: fs where
  "demoFs = map_of [(''/existing/dir'', Node True 4096), (''/home/u'', Node True 4096)]"

text \<open>A directory in which the first \<open>n - 1\<close> default names of the day are taken.\<close>

definition takenFs :: "nat \<Rightarrow> fs" where
  "takenFs n =
     map_of ((''/existing/dir'', Node True 4096) #
             map (\<lambda>k. (candidatePath ''/existing/dir'' ''pdf'' ''2024-10-16 scan'' k, Node False 20480))
                 [1..<n])"

definition scannedFs :: "nat \<Rightarrow> fs" where
  "scannedFs bytes =
     map_of [(''/existing/dir'', Node True 4096), (''/existing/dir/a.pdf'', Node False bytes)]"

text \<open>
  A trace respects the join when every step of the continuation comes after the completion
  of the capture and after the completion of the naming.
\<close>

definition afterBoth :: "event list \<Rightarrow> bool" where
  "afterBoth evs \<longleftrightarrow>
     (\<forall>xs e ys. evs = xs @ e # ys \<and> isContinuationStep e \<longrightarrow>
        CaptureCompleted \<in> set xs \<and> (\<exists>name. NamingCompleted name \<in> set xs))"

text \<open>The invariant of the event loop behind it.\<close>

definition joinInvariant :: "run_state \<Rightarrow> bool" where
  "joinInvariant s \<longleftrightarrow>
     afterBoth (r_events s)
     \<and> (scanPromise s = Fulfilled () \<longrightarrow> CaptureCompleted \<in> set (r_events s))
     \<and> (\<forall>name. promptPromise s = Fulfilled name \<longrightarrow> NamingCompleted name \<in> set (r_events s))"

text \<open>The invariant behind the count of renames in a run.\<close>

definition renameInvariant :: "plan \<Rightarrow> run_state \<Rightarrow> bool" where
  "renameInvariant pl s \<longleftrightarrow>
     (r_exited s = None \<longrightarrow> (\<forall>e\<in>set (r_events s). \<not> isContinuationStep e))
     \<and> ((\<exists>e\<in>set (r_events s). isContinuationStep e) \<longrightarrow>
          (\<exists>finalFilePath. promptPromise s = Fulfilled finalFilePath
             \<and> filter isRename (r_events s) =
                 (if p_filePath pl \<noteq> finalFilePath
                  then [RenameSync (p_filePath pl) finalFilePath] else [])))"

definition demoPlan :: plan where
  "demoPlan =
     \<lparr>p_intent = initialIntent, p_dir = ''/existing/dir'', p_ext = ''pdf'',
      p_filePath = ''/existing/dir/a.pdf'', p_promptingNeeded = True\<rparr>"

definition demoRun :: run_state where
  "demoRun =
     \<lparr>r_fs = scannedFs 20480,
      scanPromise = Fulfilled (),
      promptPromise = Fulfilled ''/existing/dir/a.pdf'',
      r_events = [CaptureCompleted, NamingCompleted ''/existing/dir/a.pdf'',
                  ExistsSync ''/existing/dir/a.pdf'', StatSync ''/existing/dir/a.pdf'',
                  ViewerLaunch ''/existing/dir/a.pdf''],
      r_exited = Some 0\<rparr>"

section \<open>Properties\<close>

subsection \<open>The matcher computes the language of the expression\<close>

inductive_simps rmatch_Empty [simp]: "rmatch Empty w"
inductive_simps rmatch_Eps [simp]: "rmatch Eps w"
inductive_simps rmatch_Cls [simp]: "rmatch (Cls neg items) w"
inductive_simps rmatch_Alt [simp]: "rmatch (Alt r s) w"
inductive_simps rmatch_Cat: "rmatch (Cat r s) w"

lemma nullable_rmatch: "nullable r \<longleftrightarrow> rmatch r []"
  by (induction r) (auto simp: rmatch_Cat intro: m_star0)

lemma rmatch_Star_Cons:
  assumes "rmatch (Star r) (c # w)"
  shows "\<exists>u v. w = u @ v \<and> rmatch r (c # u) \<and> rmatch (Star r) v"
  using assms
proof (induction "Star r" "c # w" arbitrary: w rule: rmatch.induct)
  case (m_star u v)
  show ?case
  proof (cases u)
    case Nil
    with m_star show ?thesis by simp
  next
    case (Cons a u')
    with m_star.hyps(1,3,5) show ?thesis by auto
  qed
qed

lemma deriv_rmatch: "rmatch (deriv c r) w \<longleftrightarrow> rmatch r (c # w)"
proof (induction r arbitrary: w)
  case (Cat r s)
  show ?case
  proof
    assume "rmatch (deriv c (Cat r s)) w"
    then consider (left) u v where "w = u @ v" "rmatch (deriv c r) u" "rmatch s v"
      | (right) "nullable r" "rmatch (deriv c s) w"
      by (auto simp: rmatch_Cat split: if_splits)
    then show "rmatch (Cat r s) (c # w)"
    proof cases
      case left
      then have "rmatch (Cat r s) ((c # u) @ v)"
        using Cat.IH(1) by (intro m_cat) auto
      with left show ?thesis by simp
    next
      case right
      then have "rmatch (Cat r s) ([] @ c # w)"
        using Cat.IH(2) by (intro m_cat) (auto simp: nullable_rmatch)
      then show ?thesis by simp
    qed
  next
    assume "rmatch (Cat r s) (c # w)"
    then obtain u v where uv: "c # w = u @ v" "rmatch r u" "rmatch s v"
      by (auto simp: rmatch_Cat)
    show "rmatch (deriv c (Cat r s)) w"
    proof (cases u)
      case Nil
      with uv have "nullable r" "rmatch (deriv c s) w"
        using Cat.IH(2) by (auto simp: nullable_rmatch)
      then show ?thesis by simp
    next
      case (Cons a u')
      with uv have "w = u' @ v" "rmatch (deriv c r) u'"
        using Cat.IH(1) by auto
      with uv(3) have "rmatch (Cat (deriv c r) s) w"
        by (auto intro: m_cat)
      then show ?thesis by simp
    qed
  qed
next
  case (Star r)
  show ?case
  proof
    assume "rmatch (deriv c (Star r)) w"
    then obtain u v where "w = u @ v" "rmatch (deriv c r) u" "rmatch (Star r) v"
      by (auto simp: rmatch_Cat)
    then have "rmatch (Star r) ((c # u) @ v)"
      using Star.IH by (intro m_star) auto
    with \<open>w = u @ v\<close> show "rmatch (Star r) (c # w)" by simp
  next
    assume "rmatch (Star r) (c # w)"
    from rmatch_Star_Cons [OF this] obtain u v
      where "w = u @ v" "rmatch r (c # u)" "rmatch (Star r) v" by blast
    then show "rmatch (deriv c (Star r)) w"
      using Star.IH by (auto simp: rmatch_Cat)
  qed
qed auto

lemma regex_test_rmatch: "regex_test r w \<longleftrightarrow> rmatch r w"
  by (induction w arbitrary: r) (simp_all add: nullable_rmatch deriv_rmatch)

lemma rmatch_Star_concat:
  assumes "rmatch (Star r) w"
  shows "\<exists>ws. w = concat ws \<and> (\<forall>u\<in>set ws. rmatch r u)"
  using assms
proof (induction "Star r" w rule: rmatch.induct)
  case m_star0
  have "[] = concat [] \<and> (\<forall>u\<in>set []. rmatch r u)" by simp
  then show ?case by blast
next
  case (m_star u v)
  then obtain ws where "v = concat ws" "\<forall>x\<in>set ws. rmatch r x" by blast
  with m_star.hyps(1) have "u @ v = concat (u # ws) \<and> (\<forall>x\<in>set (u # ws). rmatch r x)"
    by simp
  then show ?case by blast
qed

lemma concat_rmatch_Star:
  "(\<forall>u\<in>set ws. rmatch r u) \<Longrightarrow> rmatch (Star r) (concat ws)"
  by (induction ws) (auto intro: m_star0 m_star)

lemma rmatch_Cat_Cls:
  "rmatch (Cat (Cls neg items) s) w \<longleftrightarrow> (\<exists>c v. w = c # v \<and> cls_has neg items c \<and> rmatch s v)"
proof
  assume "rmatch (Cat (Cls neg items) s) w"
  then show "\<exists>c v. w = c # v \<and> cls_has neg items c \<and> rmatch s v"
    by (auto simp: rmatch_Cat)
next
  assume "\<exists>c v. w = c # v \<and> cls_has neg items c \<and> rmatch s v"
  then obtain c v where w: "w = c # v" and c: "cls_has neg items c" and v: "rmatch s v"
    by blast
  from c v have "rmatch (Cat (Cls neg items) s) ([c] @ v)"
    by (intro m_cat m_cls)
  with w show "rmatch (Cat (Cls neg items) s) w" by simp
qed

lemma rmatch_Star_Cls_chars:
  assumes "rmatch (Star (Cls neg items)) w"
  shows "\<forall>c\<in>set w. cls_has neg items c"
  using assms
  by (induction "Star (Cls neg items)" w rule: rmatch.induct) auto

lemma chars_rmatch_Star_Cls:
  assumes "\<forall>c\<in>set w. cls_has neg items c"
  shows "rmatch (Star (Cls neg items)) w"
  using assms
proof (induction w)
  case Nil
  show ?case by (rule m_star0)
next
  case (Cons c w)
  then have "rmatch (Star (Cls neg items)) ([c] @ w)"
    by (intro m_star m_cls) auto
  then show ?case by simp
qed

lemma rmatch_Plus_Cls:
  "rmatch (Plus (Cls neg items)) w \<longleftrightarrow> w \<noteq> [] \<and> (\<forall>c\<in>set w. cls_has neg items c)"
  using rmatch_Star_Cls_chars [of neg items] chars_rmatch_Star_Cls [of _ neg items]
  by (cases w) (auto simp: Plus_def rmatch_Cat_Cls)

subsection \<open>The language of \<open>validFilename\<close>\<close>

lemma cls_has_nameClass: "cls_has True nameClass c \<longleftrightarrow> nameChar c"
  by (auto simp: cls_has_def nameClass_def nameChar_def forbiddenChars_def)

lemma cls_has_nameClass_dot:
  "cls_has True (nameClass @ [Ch CHR ''.'']) c \<longleftrightarrow> nameChar c \<and> c \<noteq> CHR ''.''"
  by (auto simp: cls_has_def nameClass_def nameChar_def forbiddenChars_def)

lemma cls_has_separator: "cls_has False [Ch CHR '' '', Ch CHR ''.''] c \<longleftrightarrow> isSeparator c"
  by (auto simp: cls_has_def isSeparator_def)

lemma rmatch_group:
  "rmatch (Cat (Cls False [Ch CHR '' '', Ch CHR ''.'']) (Plus (Cls True (nameClass @ [Ch CHR ''.''])))) g
   \<longleftrightarrow> (\<exists>sep run. g = sep # run \<and> isSeparator sep \<and> dotFreeRun run)"
  by (auto simp: rmatch_Cat_Cls rmatch_Plus_Cls cls_has_nameClass_dot cls_has_separator
        dotFreeRun_def nameRun_def)

lemma validFilename_iff_grammar: "validFilename s \<longleftrightarrow> codeFilenameGrammar s"
proof -
  let ?g = "Cat (Cls False [Ch CHR '' '', Ch CHR ''.'']) (Plus (Cls True (nameClass @ [Ch CHR ''.''])))"
  have "validFilename s \<longleftrightarrow> (\<exists>r0 rest. s = r0 @ rest \<and> nameRun r0 \<and> rmatch (Star ?g) rest)"
    by (simp add: validFilename_def validFilename_re_def regex_test_rmatch rmatch_Cat
          rmatch_Plus_Cls cls_has_nameClass nameRun_def)
  also have "\<dots> \<longleftrightarrow> (\<exists>r0 groups. s = r0 @ concat groups \<and> nameRun r0 \<and> (\<forall>g\<in>set groups. rmatch ?g g))"
    using rmatch_Star_concat [of ?g] concat_rmatch_Star [of _ ?g] by metis
  also have "\<dots> \<longleftrightarrow> codeFilenameGrammar s"
    unfolding codeFilenameGrammar_def rmatch_group ..
  finally show ?thesis .
qed

lemma grammar_no_forbidden:
  assumes "codeFilenameGrammar s" and "c \<in> set s"
  shows "c \<notin> set forbiddenChars"
proof -
  from assms(1) obtain r0 groups where s: "s = r0 @ concat groups" and r0: "nameRun r0"
    and gs: "\<forall>g\<in>set groups. \<exists>sep run. g = sep # run \<and> isSeparator sep \<and> dotFreeRun run"
    unfolding codeFilenameGrammar_def by blast
  from assms(2) s consider "c \<in> set r0" | g where "g \<in> set groups" "c \<in> set g"
    by auto
  then show ?thesis
  proof cases
    case 1
    with r0 show ?thesis by (simp add: nameRun_def nameChar_def)
  next
    case 2
    with gs obtain sep run where "g = sep # run" "isSeparator sep" "dotFreeRun run"
      by blast
    with 2(2) show ?thesis
      by (auto simp: isSeparator_def dotFreeRun_def nameRun_def nameChar_def forbiddenChars_def)
  qed
qed

lemma nameChar_not_space: "nameChar c \<Longrightarrow> c \<noteq> CHR '' ''"
  by (auto simp: nameChar_def isWhitespace_def)

lemma containsDoubleSpace_Cons:
  "containsDoubleSpace (a # v) \<longleftrightarrow>
     (v \<noteq> [] \<and> a = CHR '' '' \<and> hd v = CHR '' '') \<or> containsDoubleSpace v"
  by (cases v) auto

lemma containsDoubleSpace_append:
  "containsDoubleSpace (u @ v) \<longleftrightarrow>
     containsDoubleSpace u \<or> containsDoubleSpace v
     \<or> (u \<noteq> [] \<and> v \<noteq> [] \<and> last u = CHR '' '' \<and> hd v = CHR '' '')"
proof (induction u)
  case Nil
  show ?case by simp
next
  case (Cons a u)
  show ?case
  proof (cases u)
    case Nil
    then show ?thesis by (auto simp: containsDoubleSpace_Cons)
  next
    case (Cons b u')
    with Cons.IH show ?thesis by auto
  qed
qed

lemma run_no_double_space: "\<forall>c\<in>set r. nameChar c \<Longrightarrow> \<not> containsDoubleSpace r"
  by (induction r rule: containsDoubleSpace.induct) (auto dest: nameChar_not_space)

lemma endsInName_run: "nameRun r \<Longrightarrow> endsInName r"
  by (simp add: nameRun_def endsInName_def run_no_double_space)

lemma endsInName_group:
  assumes "endsInName w" and "isSeparator sep" and "dotFreeRun rn"
  shows "endsInName (w @ sep # rn)"
proof -
  from assms(3) have ne: "rn \<noteq> []" and chars: "\<forall>c\<in>set rn. nameChar c"
    by (simp_all add: dotFreeRun_def nameRun_def)
  from chars have r1: "\<not> containsDoubleSpace rn"
    by (rule run_no_double_space)
  from ne chars have "nameChar (hd rn)" and r2: "nameChar (last rn)"
    by simp_all
  then have r3: "hd rn \<noteq> CHR '' ''"
    by (simp add: nameChar_not_space)
  from assms(1) have w1: "w \<noteq> []" and "nameChar (last w)" and w3: "\<not> containsDoubleSpace w"
    by (simp_all add: endsInName_def)
  then have w2: "last w \<noteq> CHR '' ''"
    by (simp add: nameChar_not_space)
  have g: "\<not> containsDoubleSpace (sep # rn)"
    using r1 r3 by (subst containsDoubleSpace_Cons) simp
  have "\<not> containsDoubleSpace (w @ sep # rn)"
    using g w2 w3 by (subst containsDoubleSpace_append) simp
  moreover have "last (w @ sep # rn) = last rn"
    using ne by simp
  ultimately show ?thesis
    using r2 by (simp add: endsInName_def)
qed

lemma endsInName_groups:
  assumes "endsInName w"
    and "\<forall>g\<in>set groups. \<exists>sep run. g = sep # run \<and> isSeparator sep \<and> dotFreeRun run"
  shows "endsInName (w @ concat groups)"
  using assms
proof (induction groups arbitrary: w)
  case Nil
  then show ?case by simp
next
  case (Cons g groups)
  then obtain sep run where "g = sep # run" "isSeparator sep" "dotFreeRun run"
    by auto
  with Cons.prems(1) have "endsInName (w @ g)"
    by (simp add: endsInName_group)
  with Cons.IH [of "w @ g"] Cons.prems(2) show ?case by simp
qed

lemma grammar_endsInName:
  assumes "codeFilenameGrammar s"
  shows "endsInName s \<and> nameChar (hd s)"
proof -
  from assms obtain r0 groups where s: "s = r0 @ concat groups" and r0: "nameRun r0"
    and gs: "\<forall>g\<in>set groups. \<exists>sep run. g = sep # run \<and> isSeparator sep \<and> dotFreeRun run"
    unfolding codeFilenameGrammar_def by blast
  from r0 have "nameChar (hd s)"
    using s by (cases r0) (auto simp: nameRun_def)
  with endsInName_groups [OF endsInName_run [OF r0] gs] s show ?thesis by simp
qed

lemma validFilename_trim:
  assumes "validFilename s"
  shows "s \<noteq> [] \<and> trim s = s"
proof -
  from assms have g: "endsInName s \<and> nameChar (hd s)"
    by (simp add: validFilename_iff_grammar grammar_endsInName)
  then have ne: "s \<noteq> []" and h: "\<not> isWhitespace (hd s)" and l: "\<not> isWhitespace (last s)"
    by (simp_all add: endsInName_def nameChar_def)
  from ne h have "dropWhile isWhitespace s = s"
    by (cases s) auto
  moreover from ne l have "dropWhile isWhitespace (rev s) = rev s"
    by (cases "rev s") (auto simp: last_rev [symmetric] simp del: last_rev)
  ultimately show ?thesis
    using ne by (simp add: trim_def)
qed

subsection \<open>Lower case\<close>

lemma lowerChar_idem: "lowerChar (lowerChar c) = lowerChar c"
proof -
  define n where "n = (of_char c :: nat)"
  have lt: "n < 256" unfolding n_def by simp
  show ?thesis
  proof (cases "(65 \<le> n \<and> n \<le> 90) \<or> (192 \<le> n \<and> n \<le> 222 \<and> n \<noteq> 215)")
    case True
    then have 1: "lowerChar c = char_of (n + 32)"
      by (simp add: lowerChar_def n_def [symmetric])
    from True have "(of_char (char_of (n + 32) :: char) :: nat) = n + 32"
      by auto
    with True have "lowerChar (char_of (n + 32)) = char_of (n + 32)"
      unfolding lowerChar_def Let_def by auto
    with 1 show ?thesis by simp
  next
    case False
    then have "lowerChar c = c"
      unfolding lowerChar_def Let_def n_def [symmetric] by auto
    then show ?thesis by simp
  qed
qed

lemma toLowerCase_idem: "toLowerCase (toLowerCase s) = toLowerCase s"
  by (simp add: toLowerCase_def lowerChar_idem)

subsection \<open>The filename validator\<close>

text \<open>
  C5 (as amended): \<open>validFilename\<close> accepts every string made of a non-empty run of
  characters other than \<open>< > : " ' ` / \ | ? *\<close> and whitespace, followed by any number of
  groups of one space or dot and a non-empty run of such characters that contains no dot;
  it rejects every string that contains one of the eleven characters or two spaces in a row.
\<close>

theorem validFilename_accepts_and_rejects:
  "(codeFilenameGrammar s \<longrightarrow> validFilename s)
   \<and> ((\<exists>c\<in>set s. c \<in> set forbiddenChars) \<longrightarrow> \<not> validFilename s)
   \<and> (containsDoubleSpace s \<longrightarrow> \<not> validFilename s)"
  using grammar_no_forbidden [of s] grammar_endsInName [of s]
  by (auto simp: validFilename_iff_grammar endsInName_def)

text \<open>
  The grammar with unrestricted runs after a separator accepts \<open>A good..holiday\<close>, which
  the validator rejects.
\<close>

theorem validFilename_spec_grammar_counterexample:
  "specFilenameGrammar ''A good..holiday'' \<and> \<not> validFilename ''A good..holiday''"
proof
  have "''A good..holiday'' = ''A'' @ concat ['' good..holiday'']" by simp
  moreover have "nameRun ''A''" "nameRun ''good..holiday''"
    by (simp_all add: nameRun_def nameChar_def forbiddenChars_def isWhitespace_def)
  ultimately show "specFilenameGrammar ''A good..holiday''"
    unfolding specFilenameGrammar_def
    by (intro exI [of _ "''A''"] exI [of _ "['' good..holiday'']"]) (simp add: isSeparator_def)
  show "\<not> validFilename ''A good..holiday''"
    by code_simp
qed

theorem validFilename_accepts_and_rejects_witness:
  "codeFilenameGrammar ''A good.holiday'' \<and> validFilename ''A good.holiday''
   \<and> CHR ''?'' \<in> set ''why?'' \<and> CHR ''?'' \<in> set forbiddenChars \<and> \<not> validFilename ''why?''
   \<and> containsDoubleSpace ''a  b'' \<and> \<not> validFilename ''a  b''"
proof -
  have "''A good.holiday'' = ''A'' @ concat ['' good'', ''.holiday'']" by simp
  moreover have "nameRun ''A''" "dotFreeRun ''good''" "dotFreeRun ''holiday''"
    by (simp_all add: dotFreeRun_def nameRun_def nameChar_def forbiddenChars_def isWhitespace_def)
  ultimately have g: "codeFilenameGrammar ''A good.holiday''"
    unfolding codeFilenameGrammar_def
    by (intro exI [of _ "''A''"] exI [of _ "['' good'', ''.holiday'']"]) (simp add: isSeparator_def)
  have q: "CHR ''?'' \<in> set ''why?''" "CHR ''?'' \<in> set forbiddenChars"
    by (simp_all add: forbiddenChars_def)
  have d: "containsDoubleSpace ''a  b''" by simp
  from g q d validFilename_accepts_and_rejects [of "''A good.holiday''"]
    validFilename_accepts_and_rejects [of "''why?''"]
    validFilename_accepts_and_rejects [of "''a  b''"]
  show ?thesis by blast
qed

subsection \<open>The loop of the default-name generator\<close>

declare defaultFilenameLoop.simps [simp del]

declare decimal.simps [simp del]

lemma loop_finds_first_free:
  assumes "index \<le> k" and "k < 100"
    and "\<forall>j. index \<le> j \<and> j < k \<longrightarrow> existsSync f (candidatePath d x b j)"
    and "\<not> existsSync f (candidatePath d x b k)"
  shows "defaultFilenameLoop f d x b index probed =
           (probed @ map (candidatePath d x b) [index..<Suc k], Inr (candidateBase b k))"
  using assms
proof (induction "k - index" arbitrary: index probed)
  case 0
  then have "index = k" by simp
  with 0 show ?case
    by (subst defaultFilenameLoop.simps) simp
next
  case (Suc m)
  then have lt: "index < k" and taken: "existsSync f (candidatePath d x b index)"
    by auto
  have "defaultFilenameLoop f d x b (index + 1) (probed @ [candidatePath d x b index]) =
          ((probed @ [candidatePath d x b index]) @ map (candidatePath d x b) [index + 1..<Suc k],
           Inr (candidateBase b k))"
    using Suc by (intro Suc.hyps(1)) auto
  moreover have "[index..<Suc k] = index # [index + 1..<Suc k]"
    using lt by (simp add: upt_conv_Cons)
  ultimately show ?case
    using lt taken Suc.prems(2) by (subst defaultFilenameLoop.simps) simp
qed

lemma loop_exhausted:
  assumes "\<forall>j. index \<le> j \<and> j < 100 \<longrightarrow> existsSync f (candidatePath d x b j)"
  shows "defaultFilenameLoop f d x b index probed =
           (probed @ map (candidatePath d x b) [index..<100],
            Inl (Throw ''No available filename found''))"
  using assms
proof (induction "100 - index" arbitrary: index probed)
  case 0
  then show ?case by (subst defaultFilenameLoop.simps) simp
next
  case (Suc m)
  then have lt: "index < 100" and taken: "existsSync f (candidatePath d x b index)"
    by auto
  have "defaultFilenameLoop f d x b (index + 1) (probed @ [candidatePath d x b index]) =
          ((probed @ [candidatePath d x b index]) @ map (candidatePath d x b) [index + 1..<100],
           Inl (Throw ''No available filename found''))"
    using Suc by (intro Suc.hyps(1)) auto
  moreover have "[index..<100] = index # [index + 1..<100]"
    using lt by (simp add: upt_conv_Cons)
  ultimately show ?case
    using lt taken by (subst defaultFilenameLoop.simps) simp
qed

lemma loop_probes_bounded:
  "length (fst (defaultFilenameLoop f d x b index probed)) \<le> length probed + (100 - index)"
proof (induction f d x b index probed rule: defaultFilenameLoop.induct)
  case (1 f d x b index probed)
  show ?case
  proof (cases "index < 100 \<and> existsSync f (candidatePath d x b index)")
    case True
    then have "defaultFilenameLoop f d x b index probed =
                 defaultFilenameLoop f d x b (index + 1) (probed @ [candidatePath d x b index])"
      by (subst defaultFilenameLoop.simps) simp
    moreover from True 1
    have "length (fst (defaultFilenameLoop f d x b (index + 1) (probed @ [candidatePath d x b index])))
            \<le> length (probed @ [candidatePath d x b index]) + (100 - (index + 1))"
      by simp
    ultimately show ?thesis
      using True by (simp del: length_append) (simp add: algebra_simps)
  next
    case False
    then show ?thesis
      by (subst defaultFilenameLoop.simps) auto
  qed
qed

subsection \<open>\<open>path.join\<close> below a normalised absolute path\<close>

lemma splitSlash_nonempty: "splitSlash s \<noteq> []"
  by (induction s) (auto split: list.splits)

lemma splitSlash_segment:
  "CHR ''/'' \<notin> set s \<Longrightarrow> splitSlash (s @ CHR ''/'' # rest) = s # splitSlash rest"
  by (induction s) (auto split: list.splits)

lemma splitSlash_plain: "CHR ''/'' \<notin> set s \<Longrightarrow> splitSlash s = [s]"
  by (induction s) (auto split: list.splits)

lemma splitSlash_absolutePath:
  assumes "\<forall>s\<in>set segs. CHR ''/'' \<notin> set s" and "segs \<noteq> []"
  shows "splitSlash (absolutePath segs) = [] # segs"
  using assms
proof (induction segs)
  case Nil
  then show ?case by simp
next
  case (Cons s segs)
  show ?case
  proof (cases segs)
    case Nil
    with Cons.prems show ?thesis
      by (simp add: absolutePath_def splitSlash_plain)
  next
    case (Cons t ts)
    with Cons.IH Cons.prems have "splitSlash (absolutePath segs) = [] # segs"
      by simp
    moreover have "absolutePath (s # segs) = CHR ''/'' # s @ absolutePath segs"
      by (simp add: absolutePath_def)
    moreover have "absolutePath segs = CHR ''/'' # t @ absolutePath ts"
      using Cons by (simp add: absolutePath_def)
    ultimately show ?thesis
      using Cons.prems splitSlash_segment [of s "t @ absolutePath ts"] by simp
  qed
qed

lemma normalize_clean_segments:
  "\<forall>s\<in>set segs. cleanSegment s \<Longrightarrow> foldl (normalizeStep a) acc segs = rev segs @ acc"
  by (induction segs arbitrary: acc) (auto simp: normalizeStep_def cleanSegment_def)

lemma joinWith_absolutePath:
  "segs \<noteq> [] \<Longrightarrow> CHR ''/'' # joinWith ''/'' segs = absolutePath segs"
proof (induction segs)
  case Nil
  then show ?case by simp
next
  case (Cons s segs)
  then show ?case
    by (cases segs) (auto simp: absolutePath_def)
qed

lemma path_normalize_clean:
  assumes "\<forall>s\<in>set segs. cleanSegment s" and "segs \<noteq> []"
  shows "path_normalize (absolutePath segs) = absolutePath segs"
proof -
  let ?p = "absolutePath segs"
  from assms have slashfree: "\<forall>s\<in>set segs. CHR ''/'' \<notin> set s"
    by (simp add: cleanSegment_def)
  from assms(2) obtain s0 rest where segs: "segs = s0 # rest" by (cases segs) auto
  then have hd: "hd ?p = CHR ''/''" and ne: "?p \<noteq> []"
    by (simp_all add: absolutePath_def)
  have "last segs \<in> set segs" using assms(2) by simp
  with assms(1) have l: "last segs \<noteq> []" "CHR ''/'' \<notin> set (last segs)"
    by (auto simp: cleanSegment_def)
  have "?p = absolutePath (butlast segs) @ CHR ''/'' # last segs"
    using assms(2) by (subst append_butlast_last_id [symmetric, of segs]) (simp_all add: absolutePath_def del: append_butlast_last_id)
  with l have "last ?p = last (last segs)"
    by simp
  moreover from l have "last (last segs) \<in> set (last segs)"
    by simp
  ultimately have nt: "last ?p \<noteq> CHR ''/''"
    using l(2) by metis
  have "foldl (normalizeStep False) [] (splitSlash ?p) = rev segs"
    using splitSlash_absolutePath [OF slashfree assms(2)] normalize_clean_segments [OF assms(1)]
    by (simp add: normalizeStep_def)
  then have q: "normalizeString ?p False = joinWith ''/'' segs"
    by (simp add: normalizeString_def)
  have "joinWith ''/'' segs \<noteq> []"
    using segs assms(1) by (cases rest) (auto simp: cleanSegment_def)
  with q hd ne nt joinWith_absolutePath [OF assms(2)] show ?thesis
    by (simp add: path_normalize_def Let_def)
qed

lemma path_join_below_clean:
  assumes "\<forall>s\<in>set segs. cleanSegment s" and "segs \<noteq> []"
  shows "path_join [absolutePath segs, ''Pictures'', ''scan''] = absolutePath segs @ ''/Pictures/scan''"
proof -
  have c: "\<forall>s\<in>set (segs @ [''Pictures'', ''scan'']). cleanSegment s"
    using assms(1) by (auto simp: cleanSegment_def)
  have e: "absolutePath (segs @ [''Pictures'', ''scan'']) = absolutePath segs @ ''/Pictures/scan''"
    by (simp add: absolutePath_def)
  from assms(2) have "absolutePath segs \<noteq> []"
    by (cases segs) (simp_all add: absolutePath_def)
  then have "path_join [absolutePath segs, ''Pictures'', ''scan''] =
          path_normalize (absolutePath segs @ ''/Pictures/scan'')"
    by (simp add: path_join_def)
  with path_normalize_clean [OF c] e show ?thesis by simp
qed

subsection \<open>Destination resolution\<close>

lemma demoEnv_dirs:
  "scriptDir demoEnv = ''/opt/scan/src''" "homeDir demoEnv = ''/home/u''"
  "currentDir demoEnv = ''/home/u''"
  by code_simp+

lemma urlPathname_plain: "list_all (\<lambda>c. \<not> needsEscape c) p \<Longrightarrow> urlPathname p = p"
  by (induction p) (simp_all add: urlPathname_def escapeChar_def)

text \<open>
  With no path on the command line and the current directory equal to \<open>scriptDir\<close> or to
  \<open>homeDir\<close>, as the script has computed them, \<open>getDestination\<close> returns
  \<open>path.join(homeDir, 'Pictures', 'scan')\<close> and an empty basename; for a home directory in
  normal form the directory is the home directory followed by \<open>/Pictures/scan\<close>.
\<close>

lemma getDestination_empty_path:
  assumes "trim (joinWith '' '' args) = []"
    and "currentDir e = scriptDir e \<or> currentDir e = homeDir e"
  shows "getDestination e f args = Inr (path_join [homeDir e, ''Pictures'', ''scan''], [], [])
       \<and> (homeDir e = absolutePath segs \<and> segs \<noteq> [] \<and> (\<forall>s\<in>set segs. cleanSegment s) \<longrightarrow>
            getDestination e f args = Inr (homeDir e @ ''/Pictures/scan'', [], []))"
proof -
  have "getDestination e f args = Inr (path_join [homeDir e, ''Pictures'', ''scan''], [], [])"
    using assms by (simp add: getDestination_def avoidScriptAndHomeDir_def)
  then show ?thesis
    using path_join_below_clean [of segs] by auto
qed

lemma getDestination_empty_path_home:
  "trim (joinWith '' '' []) = [] \<and> currentDir demoEnv = homeDir demoEnv
   \<and> homeDir demoEnv = absolutePath [''home'', ''u'']
   \<and> getDestination demoEnv demoFs [] = Inr (''/home/u/Pictures/scan'', [], [])"
proof -
  have a: "trim (joinWith '' '' []) = []" by code_simp
  have b: "currentDir demoEnv = homeDir demoEnv" by (simp add: demoEnv_dirs)
  have c: "homeDir demoEnv = absolutePath [''home'', ''u'']"
    by (simp add: demoEnv_dirs absolutePath_def)
  have d: "\<forall>s\<in>set [''home'', ''u'']. cleanSegment s"
    by (simp add: cleanSegment_def)
  have h: "homeDir demoEnv @ ''/Pictures/scan'' = ''/home/u/Pictures/scan''"
    by (simp add: demoEnv_dirs)
  from getDestination_empty_path [of "[]" demoEnv demoFs "[''home'', ''u'']"] a b c d
  have "getDestination demoEnv demoFs [] = Inr (homeDir demoEnv @ ''/Pictures/scan'', [], [])"
    by blast
  with a b c h show ?thesis by simp
qed

text \<open>
  The directory the script is installed in is recognised when its path has no character
  that a URL escapes.
\<close>

lemma getDestination_plain_install_directory:
  assumes "trim (joinWith '' '' args) = []"
    and "currentDir e = path_dirname (moduleFile e)"
    and "list_all (\<lambda>c. \<not> needsEscape c) (moduleFile e)"
  shows "getDestination e f args = Inr (path_join [homeDir e, ''Pictures'', ''scan''], [], [])"
proof -
  from assms(2,3) have "currentDir e = scriptDir e"
    by (simp add: scriptDir_def urlPathname_plain)
  with assms(1) show ?thesis
    by (simp add: getDestination_def avoidScriptAndHomeDir_def)
qed

text \<open>
  C6: with no path on the command line and the current directory equal to the directory
  the script is installed in, or to the home directory, \<open>getDestination\<close> is to return
  \<open>Pictures/scan\<close> below the home directory and an empty basename.  The script takes its own
  directory from the path of a URL, where a space is written \<open>%20\<close>: installed in
  \<open>/opt/my scan/src\<close> and run from there, it compares the current directory with
  \<open>/opt/my%20scan/src\<close> and returns the current directory.
\<close>

theorem install_directory_with_space_is_kept:
  "currentDir spacedEnv = path_dirname (moduleFile spacedEnv)
   \<and> scriptDir spacedEnv = ''/opt/my%20scan/src''
   \<and> getDestination spacedEnv demoFs [] = Inr (''/opt/my scan/src'', [], [])
   \<and> path_join [homeDir spacedEnv, ''Pictures'', ''scan''] = ''/home/u/Pictures/scan''"
  by code_simp

text \<open>
  C7: a path that names an existing directory is returned as it is, with an empty
  basename; the substitution of the script's and the home directory is not applied.
\<close>

theorem getDestination_existing_directory:
  assumes "rawPath = trim (joinWith '' '' args)" and "rawPath \<noteq> []"
    and "f rawPath = Some n" and "isDirectory n"
  shows "getDestination e f args = Inr (rawPath, [], [])"
  using assms by (simp add: getDestination_def existsSync_def Let_def)

theorem getDestination_existing_directory_witness:
  "''/home/u'' = homeDir demoEnv \<and> demoFs ''/home/u'' = Some (Node True 4096)
   \<and> getDestination demoEnv demoFs [''/home/u''] = Inr (''/home/u'', [], [])"
proof -
  have a: "''/home/u'' = trim (joinWith '' '' [''/home/u''])" by code_simp
  have b: "demoFs ''/home/u'' = Some (Node True 4096)" by (simp add: demoFs_def)
  from getDestination_existing_directory
         [of "''/home/u''" "[''/home/u'']" demoFs "Node True 4096" demoEnv] a b
  show ?thesis by (simp add: demoEnv_dirs)
qed

subsection \<open>The continuation after both operations\<close>

text \<open>
  C2: the continuation calls \<open>fs.renameSync\<close> exactly once, from the capture's target path
  to the naming result, when the two paths differ: the artifact then lies at the naming result
  and no longer at the target path, unless the rename fails, which ends the run with code 1
  and changes nothing.  When the two paths are the same it calls \<open>fs.renameSync\<close> not at all
  and leaves the file system as it was.
\<close>

theorem rename_only_when_paths_differ:
  assumes "thenCallback openAfter filePath f finalFilePath = (evs, f', res)"
  shows "(filePath \<noteq> finalFilePath \<longrightarrow>
            filter isRename evs = [RenameSync filePath finalFilePath]
            \<and> (f filePath = Some n
                 \<and> (\<exists>d. f (path_dirname finalFilePath) = Some d \<and> isDirectory d)
                 \<and> (\<forall>m. f finalFilePath = Some m \<longrightarrow> isDirectory m = isDirectory n)
               \<longrightarrow> f' = (f(filePath := None))(finalFilePath \<mapsto> n)
                   \<and> f' finalFilePath = Some n \<and> f' filePath = None)
            \<and> (f filePath = None
                 \<or> (\<forall>d. f (path_dirname finalFilePath) = Some d \<longrightarrow> \<not> isDirectory d)
               \<longrightarrow> f' = f \<and> settledExit res = 1))
       \<and> (filePath = finalFilePath \<longrightarrow> filter isRename evs = [] \<and> f' = f)"
proof (intro conjI impI)
  assume ne: "filePath \<noteq> finalFilePath"
  from ne assms show "filter isRename evs = [RenameSync filePath finalFilePath]"
    by (auto simp: thenCallback_def renameStep_def sanityCheck_def
             split: sum.splits option.splits if_splits prod.splits)
  {
    assume ok: "f filePath = Some n
        \<and> (\<exists>d. f (path_dirname finalFilePath) = Some d \<and> isDirectory d)
        \<and> (\<forall>m. f finalFilePath = Some m \<longrightarrow> isDirectory m = isDirectory n)"
    then have "renameSync f filePath finalFilePath = Inr ((f(filePath := None))(finalFilePath \<mapsto> n))"
      by (auto simp: renameSync_def split: option.splits)
    with ne assms show moved: "f' = (f(filePath := None))(finalFilePath \<mapsto> n)"
      by (auto simp: thenCallback_def renameStep_def sanityCheck_def split: if_splits)
    from moved show "f' finalFilePath = Some n"
      by simp
    from moved ne show "f' filePath = None"
      by simp
  }
  {
    assume bad: "f filePath = None
        \<or> (\<forall>d. f (path_dirname finalFilePath) = Some d \<longrightarrow> \<not> isDirectory d)"
    then obtain a where "renameSync f filePath finalFilePath = Inl a"
      by (cases "f filePath"; cases "f (path_dirname finalFilePath)")
         (auto simp: renameSync_def)
    with ne assms show "f' = f" and "settledExit res = 1"
      by (auto simp: thenCallback_def renameStep_def settledExit_def)
  }
next
  assume "filePath = finalFilePath"
  with assms show "filter isRename evs = []" and "f' = f"
    by (auto simp: thenCallback_def renameStep_def sanityCheck_def
             split: sum.splits option.splits if_splits prod.splits)
qed

theorem rename_only_when_paths_differ_witness:
  "filter isRename (fst (thenCallback True ''/existing/dir/a.pdf'' (scannedFs 20480) ''/existing/dir/b.pdf''))
     = [RenameSync ''/existing/dir/a.pdf'' ''/existing/dir/b.pdf'']
   \<and> fst (snd (thenCallback True ''/existing/dir/a.pdf'' (scannedFs 20480) ''/existing/dir/b.pdf''))
       ''/existing/dir/b.pdf'' = Some (Node False 20480)
   \<and> fst (snd (thenCallback True ''/existing/dir/a.pdf'' (scannedFs 20480) ''/existing/dir/b.pdf''))
       ''/existing/dir/a.pdf'' = None
   \<and> fst (snd (thenCallback True ''/existing/dir/a.pdf'' (scannedFs 20480) ''/nonexistent/b.pdf''))
       = scannedFs 20480
   \<and> settledExit (snd (snd (thenCallback True ''/existing/dir/a.pdf'' (scannedFs 20480) ''/nonexistent/b.pdf''))) = 1
   \<and> filter isRename (fst (thenCallback True ''/existing/dir/a.pdf'' (scannedFs 20480) ''/existing/dir/a.pdf''))
     = []
   \<and> fst (snd (thenCallback True ''/existing/dir/a.pdf'' (scannedFs 20480) ''/existing/dir/a.pdf''))
     = scannedFs 20480"
proof -
  let ?a = "''/existing/dir/a.pdf''" and ?b = "''/existing/dir/b.pdf''" and ?c = "''/nonexistent/b.pdf''"
  let ?f = "scannedFs 20480"
  obtain evs1 f1 res1 where 1: "thenCallback True ?a ?f ?b = (evs1, f1, res1)"
    by (metis prod_cases3)
  obtain evs2 f2 res2 where 2: "thenCallback True ?a ?f ?a = (evs2, f2, res2)"
    by (metis prod_cases3)
  obtain evs3 f3 res3 where 3: "thenCallback True ?a ?f ?c = (evs3, f3, res3)"
    by (metis prod_cases3)
  have src: "?f ?a = Some (Node False 20480)"
    by (simp add: scannedFs_def)
  have pd: "path_dirname ?b = ''/existing/dir''" "path_dirname ?c = ''/nonexistent''"
    by code_simp+
  have dir: "\<exists>d. ?f (path_dirname ?b) = Some d \<and> isDirectory d"
    by (simp add: pd scannedFs_def)
  have free: "\<forall>m. ?f ?b = Some m \<longrightarrow> isDirectory m = isDirectory (Node False 20480)"
    by (simp add: scannedFs_def)
  have nodir: "\<forall>d. ?f (path_dirname ?c) = Some d \<longrightarrow> \<not> isDirectory d"
    by (simp add: pd scannedFs_def)
  have ne: "?a \<noteq> ?b" "?a \<noteq> ?c"
    by simp_all
  from rename_only_when_paths_differ [OF 1, of "Node False 20480"] ne src dir free
  have m: "filter isRename evs1 = [RenameSync ?a ?b]" "f1 ?b = Some (Node False 20480)" "f1 ?a = None"
    by blast+
  from rename_only_when_paths_differ [OF 3, of "Node False 20480"] ne nodir
  have n: "f3 = ?f" "settledExit res3 = 1"
    by blast+
  from rename_only_when_paths_differ [OF 2, of "Node False 20480"]
  have k: "filter isRename evs2 = []" "f2 = ?f"
    by blast+
  from m n k show ?thesis
    by (simp add: 1 2 3)
qed

lemma isRename_continuation: "isRename e \<Longrightarrow> isContinuationStep e"
  by (cases e) auto

lemma no_continuation_no_rename:
  "\<forall>e\<in>set evs. \<not> isContinuationStep e \<Longrightarrow> filter isRename evs = []"
  by (induction evs) (auto dest: isRename_continuation)

lemma thenCallback_renames:
  assumes "thenCallback openAfter filePath f finalFilePath = (evs, f', res)"
  shows "filter isRename evs = (if filePath \<noteq> finalFilePath then [RenameSync filePath finalFilePath] else [])"
  using assms
  by (auto simp: thenCallback_def renameStep_def sanityCheck_def
           split: sum.splits option.splits if_splits prod.splits)

lemma renameInvariant_start: "renameInvariant pl (startRun pl f)"
  by (simp add: renameInvariant_def startRun_def)

lemma renameInvariant_step:
  assumes "step pl s s'" and "renameInvariant pl s"
  shows "renameInvariant pl s'"
  using assms
proof (cases rule: step.cases)
  case (all_then finalFilePath evs f' res)
  with assms(2) have "filter isRename (r_events s) = []"
    by (intro no_continuation_no_rename) (simp add: renameInvariant_def)
  with all_then thenCallback_renames [OF all_then(5)] show ?thesis
    by (simp add: renameInvariant_def)
qed (auto simp: renameInvariant_def)

lemma reachable_renameInvariant: "reachable pl f s \<Longrightarrow> renameInvariant pl s"
  by (induction rule: reachable.induct) (auto intro: renameInvariant_start renameInvariant_step)

text \<open>
  Over a whole run: once the continuation has run, the trace holds one rename, from the
  target path to the naming result, if the two differ, and none if they are the same.
\<close>

lemma run_renames:
  assumes "reachable pl f s" and "promptPromise s = Fulfilled finalFilePath"
    and "\<exists>e\<in>set (r_events s). isContinuationStep e"
  shows "filter isRename (r_events s) =
           (if p_filePath pl \<noteq> finalFilePath then [RenameSync (p_filePath pl) finalFilePath] else [])"
  using reachable_renameInvariant [OF assms(1)] assms(2,3)
  by (auto simp: renameInvariant_def)

text \<open>
  C3 (as amended): after the rename step the run ends with code 0 exactly when the final
  artifact exists and its size is at least 10240 bytes; otherwise it ends with code 1, having
  done nothing after the failed check.
\<close>

theorem sanity_check_decides_exit:
  assumes "renameStep f filePath finalFilePath = (evs1, Inr f1)"
    and "thenCallback openAfter filePath f finalFilePath = (evs, f', res)"
  shows "settledExit res = (if \<exists>n. f1 finalFilePath = Some n \<and> 10240 \<le> size_bytes n then 0 else 1)
       \<and> (settledExit res = 1 \<longrightarrow>
            f' = f1 \<and>
            (evs = evs1 @ [ExistsSync finalFilePath]
             \<or> evs = evs1 @ [ExistsSync finalFilePath, StatSync finalFilePath]))"
  using assms
  by (auto simp: thenCallback_def sanityCheck_def settledExit_def existsSync_def
           split: if_splits)

theorem sanity_check_decides_exit_witness:
  "settledExit (snd (snd (thenCallback True ''/existing/dir/a.pdf'' (scannedFs 10240) ''/existing/dir/a.pdf''))) = 0
   \<and> settledExit (snd (snd (thenCallback True ''/existing/dir/a.pdf'' (scannedFs 10239) ''/existing/dir/a.pdf''))) = 1
   \<and> fst (thenCallback True ''/existing/dir/a.pdf'' (scannedFs 10239) ''/existing/dir/a.pdf'')
       = [ExistsSync ''/existing/dir/a.pdf'', StatSync ''/existing/dir/a.pdf'']"
proof -
  have r: "renameStep (scannedFs n) ''/existing/dir/a.pdf'' ''/existing/dir/a.pdf'' = ([], Inr (scannedFs n))"
    for n by (simp add: renameStep_def)
  obtain evs1 f1 res1 where
    1: "thenCallback True ''/existing/dir/a.pdf'' (scannedFs 10240) ''/existing/dir/a.pdf'' = (evs1, f1, res1)"
    by (metis prod_cases3)
  obtain evs2 f2 res2 where
    2: "thenCallback True ''/existing/dir/a.pdf'' (scannedFs 10239) ''/existing/dir/a.pdf'' = (evs2, f2, res2)"
    by (metis prod_cases3)
  have a: "scannedFs n ''/existing/dir/a.pdf'' = Some (Node False n)" for n
    by (simp add: scannedFs_def)
  have e: "evs2 = [ExistsSync ''/existing/dir/a.pdf'', StatSync ''/existing/dir/a.pdf'']"
    using 2 by (simp add: thenCallback_def renameStep_def sanityCheck_def existsSync_def a)
  from sanity_check_decides_exit [OF r 1] sanity_check_decides_exit [OF r 2]
  show ?thesis by (simp add: 1 2 a e)
qed

text \<open>
  A file of exactly 10240 bytes does not exceed 10 KiB, and the run ends with code 0.
\<close>

theorem sanity_check_exact_threshold_counterexample:
  "\<not> 10240 < size_bytes (the (scannedFs 10240 ''/existing/dir/a.pdf''))
   \<and> thenCallback True ''/existing/dir/a.pdf'' (scannedFs 10240) ''/existing/dir/a.pdf''
       = ([ExistsSync ''/existing/dir/a.pdf'', StatSync ''/existing/dir/a.pdf'',
           ViewerLaunch ''/existing/dir/a.pdf''], scannedFs 10240, None)
   \<and> settledExit None = 0"
  by (simp add: thenCallback_def renameStep_def sanityCheck_def existsSync_def scannedFs_def
        settledExit_def)

subsection \<open>Exit codes\<close>

lemma loop_abort:
  "snd (defaultFilenameLoop f d x b index probed) = Inl a \<Longrightarrow>
   a = Throw ''No available filename found''"
proof (induction f d x b index probed rule: defaultFilenameLoop.induct)
  case (1 f d x b index probed)
  show ?case
  proof (cases "index < 100 \<and> existsSync f (candidatePath d x b index)")
    case True
    then have "defaultFilenameLoop f d x b index probed =
                 defaultFilenameLoop f d x b (index + 1) (probed @ [candidatePath d x b index])"
      by (subst defaultFilenameLoop.simps) simp
    with 1 True show ?thesis by simp
  next
    case False
    with 1(2) show ?thesis
      by (subst (asm) defaultFilenameLoop.simps) (auto split: if_splits)
  qed
qed

lemma getDefaultFilename_abort:
  "getDefaultFilename e f d x = Inl a \<Longrightarrow> a = Throw ''No available filename found''"
  by (simp add: getDefaultFilename_def getDefaultFilenameProbes_def loop_abort)

lemma getDestination_abort: "getDestination e f args = Inl a \<Longrightarrow> a = Exit 1"
  by (auto simp: getDestination_def Let_def split: if_splits)

lemma resolveTarget_abort:
  assumes "resolveTarget e f i (dir, b, x) = Inl a"
  shows "a = Throw ''No available filename found''
       \<or> (a = Exit 0 \<and> x \<noteq> [] \<and> outputFormat i \<noteq> ''pdf'' \<and> x \<noteq> outputFormat i)"
  using assms
  by (auto simp: resolveTarget_def Let_def split: if_splits sum.splits dest: getDefaultFilename_abort)

text \<open>
  Every way in which the preparation stops the process: with code 1, or with code 0 for the
  help text and for the conflict between extension and format.
\<close>

lemma prepare_abort_exit_code:
  assumes "scanToFile_prepare e f argv = Inl a"
    and "processMagicWords initialIntent argv = (i, args)"
  shows "exitCode a = 1
       \<or> (a = Exit 0 \<and>
           (''--help'' \<in> set argv \<or> ''-h'' \<in> set argv
            \<or> (\<exists>dir b x. getDestination e f args = Inr (dir, b, x) \<and> x \<noteq> []
                    \<and> outputFormat i \<noteq> ''pdf'' \<and> x \<noteq> outputFormat i)))"
proof (cases "''--help'' \<in> set argv \<or> ''-h'' \<in> set argv")
  case True
  with assms(1) show ?thesis by (auto simp: scanToFile_prepare_def)
next
  case False
  show ?thesis
  proof (cases "getDestination e f args")
    case (Inl a')
    with assms False have "a = Exit 1"
      by (auto simp: scanToFile_prepare_def dest: getDestination_abort)
    then show ?thesis by simp
  next
    case (Inr d)
    obtain dir b x where d: "d = (dir, b, x)" by (cases d) auto
    with assms False Inr have "resolveTarget e f i (dir, b, x) = Inl a"
      by (simp add: scanToFile_prepare_def)
    from resolveTarget_abort [OF this] Inr d show ?thesis by auto
  qed
qed

lemma run_exit_codes:
  assumes "reachable pl f s" and "r_exited s = Some n"
  shows "n = 0 \<or> n = 1"
  using assms
proof (induction arbitrary: n rule: reachable.induct)
  case reach_start
  then show ?case by (simp add: startRun_def)
next
  case (reach_step s s')
  from reach_step.hyps(2) reach_step.prems show ?case
    by (cases rule: step.cases) (auto simp: settledExit_def split: option.splits)
qed

text \<open>
  C4: an explicit extension that conflicts with the requested format ends the process through
  \<open>process.exit()\<close> without an argument, that is with code 0: \<open>scan jpg /existing/dir/x.png\<close>.
\<close>

theorem format_conflict_exits_with_zero:
  "scanToFile_prepare demoEnv demoFs [''jpg'', ''/existing/dir/x.png''] = Inl (Exit 0)
   \<and> getDestination demoEnv demoFs [''/existing/dir/x.png''] = Inr (''/existing/dir'', ''x'', ''png'')
   \<and> exitCode (Exit 0) = 0"
  by code_simp

subsection \<open>The default-name generator\<close>

lemma decimal_small: "n < 10 \<Longrightarrow> decimal n = [digitChar n]"
  by (subst decimal.simps) simp

lemma padStart2_two_digits:
  assumes "k \<le> 99"
  shows "length (padStart2 (decimal k)) = 2"
proof (cases "k < 10")
  case True
  then show ?thesis by (simp add: decimal_small padStart2_def)
next
  case False
  with assms have "k div 10 < 10" by simp
  then have "decimal k = [digitChar (k div 10), digitChar (k mod 10)]"
    using False by (subst decimal.simps) (simp add: decimal_small)
  then show ?thesis by (simp add: padStart2_def)
qed

lemma candidatePath_scan:
  "candidatePath dir ext (date @ '' scan'') j =
     path_join [dir, date @ '' scan '' @ padStart2 (decimal j) @ ''.'' @ ext]"
  by (simp add: candidatePath_def candidateBase_def)

lemma takenFs_taken:
  assumes "1 \<le> j" and "j < n"
  shows "existsSync (takenFs n) (candidatePath ''/existing/dir'' ''pdf'' ''2024-10-16 scan'' j)"
proof -
  let ?c = "candidatePath ''/existing/dir'' ''pdf'' ''2024-10-16 scan''"
  have "?c j \<in> fst ` set (map (\<lambda>k. (?c k, Node False 20480)) [1..<n])"
    using assms by (auto simp: image_iff)
  then have "map_of (map (\<lambda>k. (?c k, Node False 20480)) [1..<n]) (?c j) \<noteq> None"
    by (simp only: map_of_eq_None_iff not_not)
  then show ?thesis
    by (auto simp: existsSync_def takenFs_def)
qed

lemma takenFs_taken_today:
  assumes "1 \<le> j" and "j < n"
  shows "existsSync (takenFs n)
           (path_join [''/existing/dir'',
              isoDate demoEnv @ '' scan '' @ padStart2 (decimal j) @ ''.'' @ ''pdf''])"
proof -
  have "path_join [''/existing/dir'',
          isoDate demoEnv @ '' scan '' @ padStart2 (decimal j) @ ''.'' @ ''pdf''] =
        candidatePath ''/existing/dir'' ''pdf'' ''2024-10-16 scan'' j"
    by (simp add: candidatePath_def candidateBase_def demoEnv_def)
  with takenFs_taken [OF assms] show ?thesis by (simp only:)
qed

text \<open>
  C9 (as amended): the generator returns the first candidate \<open><ISO-date> scan <2-digit index>\<close>,
  counting from 01, for which the file \<open>directory/candidate.extension\<close> does not exist.
\<close>

theorem default_name_first_free:
  assumes "1 \<le> k" and "k \<le> 99"
    and "\<forall>j. 1 \<le> j \<and> j < k \<longrightarrow>
           existsSync f (path_join [dir, isoDate e @ '' scan '' @ padStart2 (decimal j) @ ''.'' @ ext])"
    and "\<not> existsSync f (path_join [dir, isoDate e @ '' scan '' @ padStart2 (decimal k) @ ''.'' @ ext])"
  shows "getDefaultFilename e f dir ext = Inr (isoDate e @ '' scan '' @ padStart2 (decimal k))
       \<and> length (padStart2 (decimal k)) = 2"
proof -
  have "defaultFilenameLoop f dir ext (isoDate e @ '' scan'') 1 [] =
          ([] @ map (candidatePath dir ext (isoDate e @ '' scan'')) [1..<Suc k],
           Inr (candidateBase (isoDate e @ '' scan'') k))"
    using assms by (intro loop_finds_first_free) (simp_all add: candidatePath_scan)
  then show ?thesis
    using assms(2)
    by (simp add: getDefaultFilename_def getDefaultFilenameProbes_def candidateBase_def
          padStart2_two_digits)
qed

theorem default_name_first_free_witness:
  "getDefaultFilename demoEnv (takenFs 6) ''/existing/dir'' ''pdf'' = Inr ''2024-10-16 scan 06''"
proof -
  have d: "isoDate demoEnv = ''2024-10-16''" by (simp add: demoEnv_def)
  have taken: "\<forall>j. 1 \<le> j \<and> j < 6 \<longrightarrow>
      existsSync (takenFs 6)
        (path_join [''/existing/dir'', isoDate demoEnv @ '' scan '' @ padStart2 (decimal j) @ ''.'' @ ''pdf''])"
    using takenFs_taken_today [of _ 6] by blast
  have free: "\<not> existsSync (takenFs 6)
      (path_join [''/existing/dir'', isoDate demoEnv @ '' scan '' @ padStart2 (decimal 6) @ ''.'' @ ''pdf''])"
    by code_simp
  have n: "isoDate demoEnv @ '' scan '' @ padStart2 (decimal 6) = ''2024-10-16 scan 06''"
    by code_simp
  from default_name_first_free [of 6 "takenFs 6" "''/existing/dir''" demoEnv "''pdf''"] taken free n
  show ?thesis by simp
qed

text \<open>
  In an empty directory the generator returns \<open>2024-10-16 scan 01\<close>, not the name with
  \<open>capture\<close> in it.
\<close>

theorem default_name_form_counterexample:
  "getDefaultFilename demoEnv (takenFs 1) ''/existing/dir'' ''pdf'' = Inr ''2024-10-16 scan 01''
   \<and> getDefaultFilename demoEnv (takenFs 1) ''/existing/dir'' ''pdf''
       \<noteq> Inr (specCandidate (isoDate demoEnv) 1)"
  by code_simp

text \<open>
  C10: the generator hands at most 99 candidates to \<open>fs.existsSync\<close>; when the 99 names of
  the day all exist it throws \<open>No available filename found\<close> after these 99 probes, and the
  exception, thrown before any promise exists, ends the process with code 1.
\<close>

theorem default_name_exhausted:
  "length (fst (getDefaultFilenameProbes e f dir (outputFormat i))) \<le> 99
   \<and> ((\<forall>k\<in>{1..99}. existsSync f
          (path_join [dir, isoDate e @ '' scan '' @ padStart2 (decimal k) @ ''.'' @ outputFormat i]))
        \<longrightarrow> getDefaultFilename e f dir (outputFormat i) = Inl (Throw ''No available filename found'')
          \<and> length (fst (getDefaultFilenameProbes e f dir (outputFormat i))) = 99
          \<and> resolveTarget e f i (dir, [], []) = Inl (Throw ''No available filename found'')
          \<and> exitCode (Throw ''No available filename found'') = 1)"
proof (intro conjI impI)
  show "length (fst (getDefaultFilenameProbes e f dir (outputFormat i))) \<le> 99"
    using loop_probes_bounded [of f dir "outputFormat i" "isoDate e @ '' scan''" 1 "[]"]
    by (simp add: getDefaultFilenameProbes_def)
next
  assume full: "\<forall>k\<in>{1..99}. existsSync f
          (path_join [dir, isoDate e @ '' scan '' @ padStart2 (decimal k) @ ''.'' @ outputFormat i])"
  have "defaultFilenameLoop f dir (outputFormat i) (isoDate e @ '' scan'') 1 [] =
          ([] @ map (candidatePath dir (outputFormat i) (isoDate e @ '' scan'')) [1..<100],
           Inl (Throw ''No available filename found''))"
    using full by (intro loop_exhausted) (simp add: candidatePath_scan)
  then have p: "getDefaultFilenameProbes e f dir (outputFormat i) =
      (map (candidatePath dir (outputFormat i) (isoDate e @ '' scan'')) [1..<100],
       Inl (Throw ''No available filename found''))"
    by (simp add: getDefaultFilenameProbes_def)
  then show g: "getDefaultFilename e f dir (outputFormat i) = Inl (Throw ''No available filename found'')"
    by (simp add: getDefaultFilename_def)
  from p show "length (fst (getDefaultFilenameProbes e f dir (outputFormat i))) = 99"
    by simp
  have "trim [] = []" by (simp add: trim_def)
  with g show "resolveTarget e f i (dir, [], []) = Inl (Throw ''No available filename found'')"
    by (simp add: resolveTarget_def)
  show "exitCode (Throw ''No available filename found'') = 1"
    by simp
qed

theorem default_name_exhausted_witness:
  "getDefaultFilename demoEnv (takenFs 100) ''/existing/dir'' ''pdf''
     = Inl (Throw ''No available filename found'')
   \<and> length (fst (getDefaultFilenameProbes demoEnv (takenFs 100) ''/existing/dir'' ''pdf'')) = 99
   \<and> resolveTarget demoEnv (takenFs 100) initialIntent (''/existing/dir'', [], [])
     = Inl (Throw ''No available filename found'')"
proof -
  have d: "isoDate demoEnv = ''2024-10-16''" "outputFormat initialIntent = ''pdf''"
    by (simp_all add: demoEnv_def initialIntent_def)
  have full: "\<forall>k\<in>{1..99}. existsSync (takenFs 100)
      (path_join [''/existing/dir'',
         isoDate demoEnv @ '' scan '' @ padStart2 (decimal k) @ ''.'' @ outputFormat initialIntent])"
    using takenFs_taken_today [of _ 100] unfolding d by auto
  from default_name_exhausted [of demoEnv "takenFs 100" "''/existing/dir''" initialIntent] full
  show ?thesis by (simp add: d)
qed

subsection \<open>Unknown extensions\<close>

text \<open>
  C8: when the extension of the last segment is none of \<open>pdf\<close>, \<open>jpg\<close>, \<open>png\<close>, the whole
  segment is the basename and the extension is left empty; \<open>scanToFile\<close> then takes the
  requested output format as the extension.
\<close>

theorem getDestination_unknown_extension:
  assumes "rawPath = trim (joinWith '' '' args)" and "rawPath \<noteq> []"
    and "\<not> (existsSync f rawPath \<and> isDirectory (the (f rawPath)))"
    and "toLowerCase (removeFirstDot (path_extname rawPath)) \<notin> set knownExtensions"
    and "validFilename (path_basename rawPath)"
    and "existsSync f (path_dirname rawPath)"
  shows "getDestination e f args =
           Inr (avoidScriptAndHomeDir e (path_dirname rawPath), path_basename rawPath, [])
       \<and> (\<exists>pl. resolveTarget e f i
                  (avoidScriptAndHomeDir e (path_dirname rawPath), path_basename rawPath, []) = Inr pl
               \<and> p_ext pl = outputFormat i \<and> \<not> p_promptingNeeded pl)"
proof
  show "getDestination e f args =
          Inr (avoidScriptAndHomeDir e (path_dirname rawPath), path_basename rawPath, [])"
    using assms
    by (auto simp: getDestination_def Let_def toLowerCase_idem path_basename_ext_def)
  from assms(5) have "path_basename rawPath \<noteq> []" "trim (path_basename rawPath) = path_basename rawPath"
    by (simp_all add: validFilename_trim)
  then show "\<exists>pl. resolveTarget e f i
                  (avoidScriptAndHomeDir e (path_dirname rawPath), path_basename rawPath, []) = Inr pl
               \<and> p_ext pl = outputFormat i \<and> \<not> p_promptingNeeded pl"
    by (simp add: resolveTarget_def Let_def)
qed

theorem getDestination_unknown_extension_witness:
  "getDestination demoEnv demoFs [''/existing/dir/notes.txt''] = Inr (''/existing/dir'', ''notes.txt'', [])
   \<and> (\<exists>pl. resolveTarget demoEnv demoFs initialIntent (''/existing/dir'', ''notes.txt'', []) = Inr pl
          \<and> p_ext pl = ''pdf'' \<and> \<not> p_promptingNeeded pl)"
proof -
  have a: "''/existing/dir/notes.txt'' = trim (joinWith '' '' [''/existing/dir/notes.txt''])"
    by code_simp
  have b: "\<not> (existsSync demoFs ''/existing/dir/notes.txt''
              \<and> isDirectory (the (demoFs ''/existing/dir/notes.txt'')))"
    by code_simp
  have c: "toLowerCase (removeFirstDot (path_extname ''/existing/dir/notes.txt'')) \<notin> set knownExtensions"
    by code_simp
  have d: "validFilename (path_basename ''/existing/dir/notes.txt'')"
    by code_simp
  have e: "existsSync demoFs (path_dirname ''/existing/dir/notes.txt'')"
    by code_simp
  have v: "avoidScriptAndHomeDir demoEnv (path_dirname ''/existing/dir/notes.txt'') = ''/existing/dir''"
    "path_basename ''/existing/dir/notes.txt'' = ''notes.txt''"
    "outputFormat initialIntent = ''pdf''"
    by code_simp+
  from getDestination_unknown_extension
         [of "''/existing/dir/notes.txt''" "[''/existing/dir/notes.txt'']" demoFs demoEnv initialIntent]
       a b c d e
  show ?thesis unfolding v by blast
qed

text \<open>The target path for the same command line, through the whole of the preparation.\<close>

lemma notes_txt_target:
  "scanToFile_prepare demoEnv demoFs [''/existing/dir/notes.txt''] =
     Inr \<lparr>p_intent = initialIntent, p_dir = ''/existing/dir'', p_ext = ''pdf'',
          p_filePath = ''/existing/dir/notes.txt.pdf'', p_promptingNeeded = False\<rparr>"
  by code_simp

subsection \<open>The join of the two operations\<close>

lemma afterBoth_Nil: "afterBoth []"
  by (simp add: afterBoth_def)

lemma afterBoth_snoc:
  assumes "afterBoth evs" and "\<not> isContinuationStep e"
  shows "afterBoth (evs @ [e])"
  unfolding afterBoth_def
proof (intro allI impI)
  fix xs e' ys
  assume h: "evs @ [e] = xs @ e' # ys \<and> isContinuationStep e'"
  with assms(2) have "ys \<noteq> []"
    by (cases ys) auto
  then obtain ys' where ys: "ys = ys' @ [e]" and evs: "evs = xs @ e' # ys'"
    using h by (cases ys rule: rev_cases) auto
  with assms(1) h show "CaptureCompleted \<in> set xs \<and> (\<exists>name. NamingCompleted name \<in> set xs)"
    unfolding afterBoth_def by blast
qed

lemma afterBoth_append:
  assumes "afterBoth evs" and "CaptureCompleted \<in> set evs" and "NamingCompleted name \<in> set evs"
  shows "afterBoth (evs @ evs')"
  unfolding afterBoth_def
proof (intro allI impI)
  fix xs e ys
  assume h: "evs @ evs' = xs @ e # ys \<and> isContinuationStep e"
  then obtain us where "(evs = xs @ us \<and> us @ evs' = e # ys) \<or> (evs @ us = xs \<and> evs' = us @ e # ys)"
    by (auto simp: append_eq_append_conv2)
  then consider (inside) zs where "evs = xs @ e # zs"
    | (behind) zs where "xs = evs @ zs"
    by (cases us) auto
  then show "CaptureCompleted \<in> set xs \<and> (\<exists>name. NamingCompleted name \<in> set xs)"
  proof cases
    case inside
    with assms(1) h show ?thesis unfolding afterBoth_def by blast
  next
    case behind
    with assms(2,3) show ?thesis by auto
  qed
qed

lemma thenCallback_events:
  "thenCallback openAfter filePath f finalFilePath = (evs, f', res) \<Longrightarrow>
   \<forall>e\<in>set evs. isContinuationStep e"
  by (auto simp: thenCallback_def renameStep_def sanityCheck_def
           split: sum.splits option.splits if_splits prod.splits)

lemma joinInvariant_start: "joinInvariant (startRun pl f)"
proof -
  have "afterBoth [NamingCompleted (p_filePath pl)]"
    using afterBoth_snoc [OF afterBoth_Nil, of "NamingCompleted (p_filePath pl)"] by simp
  then show ?thesis
    by (simp add: joinInvariant_def startRun_def afterBoth_Nil)
qed

lemma joinInvariant_step:
  assumes "step pl s s'" and "joinInvariant s"
  shows "joinInvariant s'"
  using assms
proof (cases rule: step.cases)
  case (all_then finalFilePath evs f' res)
  with assms(2) have "afterBoth (r_events s @ evs)"
    by (intro afterBoth_append [of _ finalFilePath]) (simp_all add: joinInvariant_def)
  with all_then assms(2) show ?thesis
    by (simp add: joinInvariant_def)
qed (auto simp: joinInvariant_def afterBoth_snoc)

lemma reachable_joinInvariant: "reachable pl f s \<Longrightarrow> joinInvariant s"
  by (induction rule: reachable.induct) (auto intro: joinInvariant_start joinInvariant_step)

text \<open>
  C1: in every run, a rename, an existence check, a size check or a viewer launch is preceded
  in the trace by the completion of the capture and by the completion of the naming.
\<close>

theorem continuation_waits_for_both:
  assumes "reachable pl f s" and "r_events s = xs @ e # ys" and "isContinuationStep e"
  shows "CaptureCompleted \<in> set xs \<and> (\<exists>name. NamingCompleted name \<in> set xs)"
  using reachable_joinInvariant [OF assms(1)] assms(2,3)
  unfolding joinInvariant_def afterBoth_def by blast

lemma demoRun_reachable: "reachable demoPlan demoFs demoRun"
proof -
  let ?p = "''/existing/dir/a.pdf''"
  let ?s0 = "startRun demoPlan demoFs"
  let ?s1 = "?s0\<lparr>r_fs := scannedFs 20480, scanPromise := Fulfilled (),
                 r_events := r_events ?s0 @ [CaptureCompleted]\<rparr>"
  let ?s2 = "?s1\<lparr>promptPromise := Fulfilled ?p, r_events := r_events ?s1 @ [NamingCompleted ?p]\<rparr>"
  let ?evs = "[ExistsSync ?p, StatSync ?p, ViewerLaunch ?p]"
  let ?s3 = "?s2\<lparr>r_fs := scannedFs 20480, r_events := r_events ?s2 @ ?evs,
                 r_exited := Some (settledExit None)\<rparr>"
  have 0: "reachable demoPlan demoFs ?s0"
    by (rule reach_start)
  have "step demoPlan ?s0 ?s1"
    by (rule capture_ok) (simp_all add: startRun_def)
  with 0 have 1: "reachable demoPlan demoFs ?s1"
    by (rule reach_step)
  have "step demoPlan ?s1 ?s2"
    by (rule naming_ok) (simp_all add: startRun_def demoPlan_def)
  with 1 have 2: "reachable demoPlan demoFs ?s2"
    by (rule reach_step)
  have cb: "thenCallback (openFlag (p_intent demoPlan)) (p_filePath demoPlan) (r_fs ?s2) ?p =
          (?evs, scannedFs 20480, None)"
    by (simp add: thenCallback_def renameStep_def sanityCheck_def existsSync_def scannedFs_def
          demoPlan_def initialIntent_def)
  have "step demoPlan ?s2 ?s3"
    by (rule all_then [OF _ _ _ cb]) (simp_all add: startRun_def)
  with 2 have "reachable demoPlan demoFs ?s3"
    by (rule reach_step)
  moreover have "?s3 = demoRun"
    by (simp add: startRun_def demoPlan_def demoRun_def settledExit_def)
  ultimately show ?thesis by simp
qed

theorem continuation_waits_for_both_witness:
  "reachable demoPlan demoFs demoRun
   \<and> r_events demoRun =
       [CaptureCompleted, NamingCompleted ''/existing/dir/a.pdf'']
       @ ExistsSync ''/existing/dir/a.pdf''
       # [StatSync ''/existing/dir/a.pdf'', ViewerLaunch ''/existing/dir/a.pdf'']
   \<and> isContinuationStep (ExistsSync ''/existing/dir/a.pdf'')
   \<and> CaptureCompleted \<in> set [CaptureCompleted, NamingCompleted ''/existing/dir/a.pdf'']
   \<and> (\<exists>name. NamingCompleted name \<in> set [CaptureCompleted, NamingCompleted ''/existing/dir/a.pdf''])"
proof -
  have ev: "r_events demoRun =
       [CaptureCompleted, NamingCompleted ''/existing/dir/a.pdf'']
       @ ExistsSync ''/existing/dir/a.pdf''
       # [StatSync ''/existing/dir/a.pdf'', ViewerLaunch ''/existing/dir/a.pdf'']"
    by (simp add: demoRun_def)
  have st: "isContinuationStep (ExistsSync ''/existing/dir/a.pdf'')"
    by simp
  from continuation_waits_for_both [OF demoRun_reachable ev st] demoRun_reachable ev st
  show ?thesis by blast
qed

end
